theory Spec2Isabelle
  imports
    Main
    "HOL-Library.Word"
    "HOL-Library.Signed_Division"
    "HOL-Library.Char_ord"
    "HOL-Library.List_Lexorder"
    "HOL-Library.Multiset"
begin

unbundle bit_operations_syntax

section \<open>Data model (client.go)\<close>

text \<open>
  Go's \<open>uint\<close> and \<open>int\<close> are 64-bit machine integers on the platforms the client is
  built for; \<open>uint\<close> values are compared unsigned, \<open>int\<close> values through \<open>sint\<close>.
  Strings are byte sequences, compared bytewise (the order of \<open>Char_ord\<close> and
  \<open>List_Lexorder\<close>).
\<close>

type_synonym uint = "64 word"
type_synonym go_int = "64 word"
type_synonym int64 = "64 word"

subsection \<open>time.Time, as far as the client uses it\<close>

text \<open>
  The standard library's \<open>time.Time\<close> is a struct of a wall word, an \<open>ext\<close> word and a
  location pointer. The low 30 bits of the wall word are the nanoseconds. When the top
  bit of the wall word (\<open>hasMonotonic\<close>) is clear, \<open>ext\<close> holds the seconds since
  January 1 of year 1; when it is set (a value of \<open>time.Now\<close>, with a monotonic clock
  reading in \<open>ext\<close>), the 33 bits below it hold the seconds since January 1 of year 1885.
  The values the client builds itself come from \<open>time.Unix\<close> or are the zero value, and
  have the bit clear; a caller may hand the sorter values that have it set.
\<close>

datatype Location = NoLocation | Local

record time_Time =
  wall :: "64 word"
  ext :: int64
  loc :: Location

definition unixToInternal :: int64 where
  "unixToInternal = 62135596800"

definition internalToUnix :: int64 where
  "internalToUnix = - unixToInternal"

definition nsecMask :: "64 word" where
  "nsecMask = 2 ^ 30 - 1"

definition zero_Time :: time_Time where
  "zero_Time = \<lparr>wall = 0, ext = 0, loc = NoLocation\<rparr>"

definition hasMonotonic :: "64 word" where
  "hasMonotonic = 2 ^ 63"

definition nsecShift :: nat where
  "nsecShift = 30"

definition wallToInternal :: int64 where
  "wallToInternal = 59453308800"

definition sec :: "time_Time \<Rightarrow> int64" where
  "sec t =
     (if wall t AND hasMonotonic \<noteq> 0
      then wallToInternal + drop_bit (nsecShift + 1) (push_bit 1 (wall t))
      else ext t)"

definition nsec :: "time_Time \<Rightarrow> 64 word" where
  "nsec t = wall t AND nsecMask"

definition unixTime :: "int64 \<Rightarrow> 64 word \<Rightarrow> time_Time" where
  "unixTime s n = \<lparr>wall = n, ext = s + unixToInternal, loc = Local\<rparr>"

text \<open>
  \<open>time.Unix(sec, nsec)\<close>: a nanosecond count outside \<open>[0, 1e9)\<close> is carried into the
  seconds first (Go's \<open>/\<close> truncates, hence \<open>sdiv\<close>).
\<close>

definition Unix :: "int64 \<Rightarrow> int64 \<Rightarrow> time_Time" where
  "Unix s n =
     (if sint n < 0 \<or> 1000000000 \<le> sint n then
        (let q = word_of_int (sint n sdiv 1000000000);
             s1 = s + q;
             n1 = n - q * 1000000000
         in if sint n1 < 0 then unixTime (s1 - 1) (n1 + 1000000000) else unixTime s1 n1)
      else unixTime s n)"

definition IsZero :: "time_Time \<Rightarrow> bool" where
  "IsZero t \<longleftrightarrow> sec t = 0 \<and> nsec t = 0"

definition Unix_seconds :: "time_Time \<Rightarrow> int64" where
  "Unix_seconds t = sec t + internalToUnix"

definition UnixNano :: "time_Time \<Rightarrow> int64" where
  "UnixNano t = (sec t + internalToUnix) * 1000000000 + nsec t"

subsection \<open>Records of the API\<close>

record Timestamp =
  Time :: time_Time

definition zero_Timestamp :: Timestamp where
  "zero_Timestamp = \<lparr>Timestamp.Time = zero_Time\<rparr>"

record baseItem =
  ID :: uint
  By :: string
  Score :: go_int
  Time :: Timestamp
  Type :: string

record Item = baseItem +
  Descendants :: go_int
  Parts :: "uint list"
  Parent :: uint
  Kids :: "uint list"
  Text :: string
  Title :: string
  Poll :: uint
  URL :: string

record Story = baseItem +
  Descendants :: go_int
  Kids :: "uint list"
  Text :: string
  Title :: string
  URL :: string

record Comment = baseItem +
  Kids :: "uint list"
  Parent :: uint
  Text :: string

record Ask = baseItem +
  Descendants :: go_int
  Kids :: "uint list"
  Text :: string
  Title :: string

record Job = baseItem +
  Text :: string
  Title :: string
  URL :: string

record Poll = baseItem +
  Descendants :: go_int
  Kids :: "uint list"
  Parts :: "uint list"
  Text :: string
  Title :: string

record PollOption = baseItem +
  Poll :: uint
  Text :: string

definition StoryType :: string where "StoryType = ''story''"
definition CommentType :: string where "CommentType = ''comment''"
definition AskType :: string where "AskType = ''ask''"
definition JobType :: string where "JobType = ''job''"
definition PollType :: string where "PollType = ''poll''"
definition PollOptionType :: string where "PollOptionType = ''pollopt''"

section \<open>The sorter\<close>

text \<open>
  \<open>cmp.Compare\<close> on an ordered type without NaN: \<open>-1\<close>, \<open>0\<close> or \<open>+1\<close>.
\<close>

definition Compare :: "'a::linorder \<Rightarrow> 'a \<Rightarrow> int" where
  "Compare x y = (if x < y then - 1 else if y < x then 1 else 0)"

text \<open>
  \<open>slices.SortStableFunc\<close> is the standard library's stable sort: it orders the slice by
  the comparator and keeps the original order of elements that compare equal. It is
  represented by stable insertion: an element moves past those that compare strictly
  less, and stops in front of the first one that does not.
\<close>

fun insert_cmp :: "('a \<Rightarrow> 'a \<Rightarrow> int) \<Rightarrow> 'a \<Rightarrow> 'a list \<Rightarrow> 'a list" where
  "insert_cmp cmp x [] = [x]"
| "insert_cmp cmp x (y # ys) =
     (if cmp y x < 0 then y # insert_cmp cmp x ys else x # y # ys)"

fun SortStableFunc :: "'a list \<Rightarrow> ('a \<Rightarrow> 'a \<Rightarrow> int) \<Rightarrow> 'a list" where
  "SortStableFunc [] cmp = []"
| "SortStableFunc (x # xs) cmp = insert_cmp cmp x (SortStableFunc xs cmp)"

definition Sort :: "'a list \<Rightarrow> ('a \<Rightarrow> 'a \<Rightarrow> int) \<Rightarrow> 'a list" where
  "Sort items cmp = SortStableFunc items cmp"

text \<open>
  \<open>Order\<close> is an \<open>int\<close> with two named values. Any other value reaches the
  \<open>default\<close> branch of the switch, which prints a message and leaves the slice as it is.
  The functions are generic in the item type: every variant embeds \<open>baseItem\<close>, whose
  getters they call.
\<close>

type_synonym Order = int

definition Ascending :: Order where "Ascending = 0"
definition Descending :: Order where "Descending = 1"

definition getID :: "'a baseItem_scheme \<Rightarrow> uint" where "getID i = ID i"
definition getBy :: "'a baseItem_scheme \<Rightarrow> string" where "getBy i = By i"
definition getScore :: "'a baseItem_scheme \<Rightarrow> int" where "getScore i = sint (Score i)"
definition getTime :: "'a baseItem_scheme \<Rightarrow> Timestamp" where "getTime i = baseItem.Time i"
definition getType :: "'a baseItem_scheme \<Rightarrow> string" where "getType i = Type i"

definition timeKey :: "'a baseItem_scheme \<Rightarrow> int" where
  "timeKey i = sint (UnixNano (Timestamp.Time (getTime i)))"

definition SortID :: "'a baseItem_scheme list \<Rightarrow> Order \<Rightarrow> 'a baseItem_scheme list" where
  "SortID items order =
     (if order = Ascending then Sort items (\<lambda>a b. Compare (getID a) (getID b))
      else if order = Descending then Sort items (\<lambda>a b. Compare (getID b) (getID a))
      else items)"

definition SortScore :: "'a baseItem_scheme list \<Rightarrow> Order \<Rightarrow> 'a baseItem_scheme list" where
  "SortScore items order =
     (if order = Ascending then Sort items (\<lambda>a b. Compare (getScore a) (getScore b))
      else if order = Descending then Sort items (\<lambda>a b. Compare (getScore b) (getScore a))
      else items)"

definition SortTime :: "'a baseItem_scheme list \<Rightarrow> Order \<Rightarrow> 'a baseItem_scheme list" where
  "SortTime items order =
     (if order = Ascending then Sort items (\<lambda>a b. Compare (timeKey a) (timeKey b))
      else if order = Descending then Sort items (\<lambda>a b. Compare (timeKey b) (timeKey a))
      else items)"

definition SortType :: "'a baseItem_scheme list \<Rightarrow> Order \<Rightarrow> 'a baseItem_scheme list" where
  "SortType items order =
     (if order = Ascending then Sort items (\<lambda>a b. Compare (getType a) (getType b))
      else if order = Descending then Sort items (\<lambda>a b. Compare (getType b) (getType a))
      else items)"

section \<open>Timestamp decoding\<close>

text \<open>
  \<open>json.Unmarshal(data, &timestamp)\<close> into an \<open>int64\<close> variable that starts at zero:
  surrounding white space is skipped, the literal \<open>null\<close> leaves the variable as it is,
  an integer literal of JSON (no leading zeros, an optional minus sign) in the range of
  \<open>int64\<close> is stored, and everything else is an error.
\<close>

datatype json_error = JSONError

definition is_space :: "char \<Rightarrow> bool" where
  "is_space c \<longleftrightarrow> c \<in> set [CHR '' '', CHR 0x09, CHR 0x0A, CHR 0x0D]"

definition trim_space :: "string \<Rightarrow> string" where
  "trim_space s = rev (dropWhile is_space (rev (dropWhile is_space s)))"

definition is_digit :: "char \<Rightarrow> bool" where
  "is_digit c \<longleftrightarrow> c \<in> set ''0123456789''"

definition digit_val :: "char \<Rightarrow> int" where
  "digit_val c = of_char c - 48"

definition decimal :: "string \<Rightarrow> int" where
  "decimal ds = foldl (\<lambda>a c. 10 * a + digit_val c) 0 ds"

definition json_digits :: "string \<Rightarrow> int option" where
  "json_digits ds =
     (case ds of
        [] \<Rightarrow> None
      | d # rest \<Rightarrow>
          if list_all is_digit ds \<and> (rest = [] \<or> d \<noteq> CHR ''0'') then Some (decimal ds)
          else None)"

definition json_integer :: "string \<Rightarrow> int option" where
  "json_integer s =
     (case s of
        [] \<Rightarrow> None
      | c # cs \<Rightarrow>
          if c = CHR ''-'' then map_option uminus (json_digits cs)
          else json_digits s)"

definition json_Unmarshal_int64 :: "string \<Rightarrow> json_error + int64" where
  "json_Unmarshal_int64 data =
     (let s = trim_space data in
      if s = ''null'' then Inr 0
      else (case json_integer s of
              None \<Rightarrow> Inl JSONError
            | Some v \<Rightarrow>
                if - (2 ^ 63) \<le> v \<and> v < 2 ^ 63 then Inr (word_of_int v)
                else Inl JSONError))"

text \<open>
  \<open>Timestamp.UnmarshalJSON\<close> has a pointer receiver: the model returns the error (if any)
  and the receiver after the call.
\<close>

definition UnmarshalJSON :: "Timestamp \<Rightarrow> string \<Rightarrow> json_error option \<times> Timestamp" where
  "UnmarshalJSON t data =
     (case json_Unmarshal_int64 data of
        Inl err \<Rightarrow> (Some err, t)
      | Inr timestamp \<Rightarrow> (None, t\<lparr>Timestamp.Time := Unix timestamp 0\<rparr>))"

section \<open>The projection (To and the converters)\<close>

definition ToComment :: "Item \<Rightarrow> Comment" where
  "ToComment item =
     \<lparr>ID = ID item, By = By item, Score = Score item, Time = baseItem.Time item,
      Type = Type item,
      Comment.Kids = Item.Kids item, Comment.Parent = Item.Parent item,
      Comment.Text = Item.Text item\<rparr>"

definition ToStory :: "Item \<Rightarrow> Story" where
  "ToStory item =
     \<lparr>ID = ID item, By = By item, Score = Score item, Time = baseItem.Time item,
      Type = Type item,
      Story.Descendants = Item.Descendants item, Story.Kids = Item.Kids item,
      Story.Text = Item.Text item, Story.Title = Item.Title item,
      Story.URL = Item.URL item\<rparr>"

definition ToAsk :: "Item \<Rightarrow> Ask" where
  "ToAsk item =
     \<lparr>ID = ID item, By = By item, Score = Score item, Time = baseItem.Time item,
      Type = Type item,
      Ask.Descendants = Item.Descendants item, Ask.Kids = Item.Kids item,
      Ask.Text = Item.Text item, Ask.Title = Item.Title item\<rparr>"

definition ToJob :: "Item \<Rightarrow> Job" where
  "ToJob item =
     \<lparr>ID = ID item, By = By item, Score = Score item, Time = baseItem.Time item,
      Type = Type item,
      Job.Text = Item.Text item, Job.Title = Item.Title item, Job.URL = Item.URL item\<rparr>"

definition ToPoll :: "Item \<Rightarrow> Poll" where
  "ToPoll item =
     \<lparr>ID = ID item, By = By item, Score = Score item, Time = baseItem.Time item,
      Type = Type item,
      Poll.Descendants = Item.Descendants item, Poll.Kids = Item.Kids item,
      Poll.Parts = Item.Parts item, Poll.Text = Item.Text item,
      Poll.Title = Item.Title item\<rparr>"

definition ToPollOption :: "Item \<Rightarrow> PollOption" where
  "ToPollOption item =
     \<lparr>ID = ID item, By = By item, Score = Score item, Time = baseItem.Time item,
      Type = Type item,
      PollOption.Poll = Item.Poll item, PollOption.Text = Item.Text item\<rparr>"

text \<open>
  A value of the interface \<open>Convertible\<close> produced by the converters is one of the six
  variants. The type parameter \<open>C\<close> of \<open>To\<close> is one of the six variant types, or a type
  of the caller's own that implements \<open>Type()\<close> with some tag.
\<close>

datatype Convertible =
  CStory Story | CComment Comment | CAsk Ask | CJob Job | CPoll Poll
  | CPollOption PollOption

datatype target =
  TStory | TComment | TAsk | TJob | TPoll | TPollOption | TOther string

fun target_Type :: "target \<Rightarrow> string" where
  "target_Type TStory = StoryType"
| "target_Type TComment = CommentType"
| "target_Type TAsk = AskType"
| "target_Type TJob = JobType"
| "target_Type TPoll = PollType"
| "target_Type TPollOption = PollOptionType"
| "target_Type (TOther tag) = tag"

fun dynamic_type :: "Convertible \<Rightarrow> target" where
  "dynamic_type (CStory _) = TStory"
| "dynamic_type (CComment _) = TComment"
| "dynamic_type (CAsk _) = TAsk"
| "dynamic_type (CJob _) = TJob"
| "dynamic_type (CPoll _) = TPoll"
| "dynamic_type (CPollOption _) = TPollOption"

fun is_variant :: "target \<Rightarrow> bool" where
  "is_variant (TOther _) = False"
| "is_variant _ = True"

definition converters :: "string \<Rightarrow> (Item \<Rightarrow> Convertible) option" where
  "converters =
     map_of
       [(StoryType, \<lambda>i. CStory (ToStory i)),
        (CommentType, \<lambda>i. CComment (ToComment i)),
        (AskType, \<lambda>i. CAsk (ToAsk i)),
        (JobType, \<lambda>i. CJob (ToJob i)),
        (PollType, \<lambda>i. CPoll (ToPoll i)),
        (PollOptionType, \<lambda>i. CPollOption (ToPollOption i))]"

text \<open>
  The errors of \<open>To\<close>: the two it builds with \<open>fmt.Errorf\<close>, and the panic of the type
  assertion \<open>fn(item).(C)\<close> when the converted value is not of type \<open>C\<close>.
\<close>

datatype to_error =
  MismatchedTypes string string
  | UnsupportedType string
  | PanicTypeAssertion

definition To :: "target \<Rightarrow> Item \<Rightarrow> to_error + Convertible" where
  "To c item =
     (if Type item \<noteq> target_Type c then Inl (MismatchedTypes (target_Type c) (Type item))
      else (case converters (Type item) of
              None \<Rightarrow> Inl (UnsupportedType (Type item))
            | Some fn \<Rightarrow>
                (let v = fn item in
                 if dynamic_type v = c then Inr v else Inl PanicTypeAssertion)))"

section \<open>ItemService.List\<close>

text \<open>
  The errors a fetch can report: the sentinel \<open>ErrNotFound\<close> of \<open>Fetch\<close> (the body is
  \<open>null\<close>), a failure to send the request or to read the response, a failure to decode
  the body, and the error of a request whose context has ended.
\<close>

datatype error = ErrNotFound | TransportError | DecodeError | ContextCanceled

text \<open>
  What \<open>List\<close> reads from outside: the package variable \<open>maxWorkers\<close>, and the
  outcome of \<open>s.Get(ctx, id)\<close> for each identifier, which is what the upstream service
  answers (the network is not part of the model).
\<close>

record env =
  maxWorkers :: int
  Get :: "uint \<Rightarrow> error + Item"

definition SetMaxWorkers :: "int \<Rightarrow> env \<Rightarrow> env" where
  "SetMaxWorkers n e = e\<lparr>maxWorkers := n\<rparr>"

definition default_env :: "(uint \<Rightarrow> error + Item) \<Rightarrow> env" where
  "default_env g = \<lparr>maxWorkers = - 1, Get = g\<rparr>"

type_synonym filter = "(Item \<Rightarrow> bool) option"

text \<open>
  The conditional of the task function (lines 289 to 293): whether a fetched item is
  sent to the channel \<open>processed\<close>.
\<close>

definition forwards :: "filter \<Rightarrow> Item \<Rightarrow> bool" where
  "forwards flt item =
     (if flt \<noteq> None \<and> (the flt) item then True
      else if flt = None then True
      else False)"

text \<open>The last loop of \<open>List\<close> (lines 307 to 311): look every identifier up, in order.\<close>

fun collect :: "uint list \<Rightarrow> (uint \<rightharpoonup> Item) \<Rightarrow> Item list" where
  "collect [] m = []"
| "collect (k # ids) m =
     (case m k of Some item \<Rightarrow> item # collect ids m | None \<Rightarrow> collect ids m)"

text \<open>
  \<open>List\<close> runs three kinds of goroutines: the caller's (the loop over \<open>g.Go\<close>,
  \<open>g.Wait\<close>, \<open>close(processed)\<close>, \<open><-wait\<close>, the last loop), the collector (the
  \<open>select\<close> loop that fills \<open>itemsMap\<close>), and one task per identifier. The state holds
  what they share; an action is one step of one goroutine, and a schedule (a list of
  actions) is one interleaving.

  A task is either inside \<open>s.Get\<close> or, with its item fetched and accepted, at the send
  \<open>processed <- item\<close>. The tasks of the state are the goroutines the group counts
  against its limit.
\<close>

datatype task = Fetching uint | Sending Item

datatype pc =
  Spawning
  | AfterWait
  | AwaitCollector
  | Returned "Item list option \<times> error option"

record state =
  todo :: "uint list"
  tasks :: "task list"
  processed :: "Item list"
  processed_closed :: bool
  itemsMap :: "uint \<rightharpoonup> Item"
  group_err :: "error option"
  ctx_done :: bool
  wait_closed :: bool
  pc :: pc

datatype action =
  Go
  | GetReturns uint
  | GetCanceled uint
  | Send Item
  | Receive
  | SeeClosed
  | SeeDone
  | Wait
  | Close
  | Finish
  | CallerCancel

text \<open>
  The group \<open>g\<close> is an \<open>errgroup.Group\<close> of \<open>golang.org/x/sync\<close>, made by
  \<open>errgroup.WithContext\<close>. The steps below follow what that package documents:
  \<^item> \<open>SetLimit(n)\<close> limits the number of active goroutines of the group to at most \<open>n\<close>; a
    negative value is no limit, and a limit of zero prevents any new goroutine from being
    added. \<open>Go\<close> blocks until the new goroutine can be added without exceeding the limit.
  \<^item> \<open>Wait\<close> blocks until all calls of the functions given to \<open>Go\<close> have returned, then
    returns the first non-nil error (if any) from them.
  \<^item> The derived context is canceled the first time a function passed to \<open>Go\<close> returns a
    non-nil error or the first time \<open>Wait\<close> returns, whichever occurs first.

  A task function returns: the group releases its slot; the first error is kept and
  cancels the context.
\<close>

definition task_returns :: "task \<Rightarrow> error option \<Rightarrow> state \<Rightarrow> state" where
  "task_returns t r s =
     (case r of
        None \<Rightarrow> s\<lparr>tasks := remove1 t (tasks s)\<rparr>
      | Some err \<Rightarrow>
          s\<lparr>tasks := remove1 t (tasks s),
            group_err := (if group_err s = None then Some err else group_err s),
            ctx_done := True\<rparr>)"

text \<open>
  The capacity of \<open>processed\<close> (\<open>make(chan Item, 10)\<close>).
\<close>

definition capacity :: nat where
  "capacity = 10"

text \<open>
  One step. \<open>None\<close>: the goroutine cannot take that step in this state (it is blocked,
  or it is elsewhere in its code).
  \<^item> \<open>Go\<close>: the loop calls \<open>g.Go\<close> for the next identifier. After \<open>g.SetLimit(n)\<close> a
    negative \<open>n\<close> is no limit; otherwise \<open>g.Go\<close> blocks while \<open>n\<close> goroutines are active.
  \<^item> \<open>GetReturns id\<close>: \<open>s.Get(ctx, id)\<close> returns what the service answers; on an error the
    task returns it, otherwise the task sends the item if the conditional says so.
  \<^item> \<open>GetCanceled id\<close>: \<open>s.Get(ctx, id)\<close> fails because the context has ended.
  \<^item> \<open>Send item\<close>: the send \<open>processed <- item\<close> completes; it blocks while the buffer
    is full.
  \<^item> \<open>Receive\<close>, \<open>SeeClosed\<close>, \<open>SeeDone\<close>: the three outcomes of the collector's
    \<open>select\<close>: an item arrives and is stored under its own \<open>ID\<close>; the channel is closed
    and drained; \<open>ctx.Done()\<close> is ready. When several can proceed, \<open>select\<close> picks any.
    The last two end the collector, which closes \<open>wait\<close>.
  \<^item> \<open>Wait\<close>: \<open>g.Wait()\<close> returns once every task has returned; it cancels the context
    and yields the first error, with which \<open>List\<close> returns \<open>nil\<close>.
  \<^item> \<open>Close\<close>: \<open>close(processed)\<close>. \<open>Finish\<close>: \<open><-wait\<close>, the last loop, the return.
  \<^item> \<open>CallerCancel\<close>: the caller's context ends, and with it the derived one.
\<close>

fun step :: "env \<Rightarrow> uint list \<Rightarrow> filter \<Rightarrow> action \<Rightarrow> state \<Rightarrow> state option" where
  "step e ids flt Go s =
     (case todo s of
        [] \<Rightarrow> None
      | k # rest \<Rightarrow>
          if pc s = Spawning
             \<and> (maxWorkers e < 0 \<or> int (length (tasks s)) < maxWorkers e)
          then Some (s\<lparr>todo := rest, tasks := tasks s @ [Fetching k]\<rparr>)
          else None)"
| "step e ids flt (GetReturns k) s =
     (if Fetching k \<in> set (tasks s) then
        (case Get e k of
           Inl err \<Rightarrow> Some (task_returns (Fetching k) (Some err) s)
         | Inr item \<Rightarrow>
             if forwards flt item
             then Some (s\<lparr>tasks := remove1 (Fetching k) (tasks s) @ [Sending item]\<rparr>)
             else Some (task_returns (Fetching k) None s))
      else None)"
| "step e ids flt (GetCanceled k) s =
     (if Fetching k \<in> set (tasks s) \<and> ctx_done s
      then Some (task_returns (Fetching k) (Some ContextCanceled) s)
      else None)"
| "step e ids flt (Send item) s =
     (if Sending item \<in> set (tasks s) \<and> length (processed s) < capacity
      then Some (task_returns (Sending item) None (s\<lparr>processed := processed s @ [item]\<rparr>))
      else None)"
| "step e ids flt Receive s =
     (case processed s of
        [] \<Rightarrow> None
      | item # rest \<Rightarrow>
          if wait_closed s then None
          else Some (s\<lparr>processed := rest, itemsMap := (itemsMap s)(ID item \<mapsto> item)\<rparr>))"
| "step e ids flt SeeClosed s =
     (if \<not> wait_closed s \<and> processed s = [] \<and> processed_closed s
      then Some (s\<lparr>wait_closed := True\<rparr>)
      else None)"
| "step e ids flt SeeDone s =
     (if \<not> wait_closed s \<and> ctx_done s then Some (s\<lparr>wait_closed := True\<rparr>) else None)"
| "step e ids flt Wait s =
     (if pc s = Spawning \<and> todo s = [] \<and> tasks s = [] then
        (case group_err s of
           Some err \<Rightarrow> Some (s\<lparr>ctx_done := True, pc := Returned (None, Some err)\<rparr>)
         | None \<Rightarrow> Some (s\<lparr>ctx_done := True, pc := AfterWait\<rparr>))
      else None)"
| "step e ids flt Close s =
     (if pc s = AfterWait then Some (s\<lparr>processed_closed := True, pc := AwaitCollector\<rparr>)
      else None)"
| "step e ids flt Finish s =
     (if pc s = AwaitCollector \<and> wait_closed s
      then Some (s\<lparr>pc := Returned (Some (collect ids (itemsMap s)), None)\<rparr>)
      else None)"
| "step e ids flt CallerCancel s = Some (s\<lparr>ctx_done := True\<rparr>)"

fun run :: "env \<Rightarrow> uint list \<Rightarrow> filter \<Rightarrow> action list \<Rightarrow> state \<Rightarrow> state option" where
  "run e ids flt [] s = Some s"
| "run e ids flt (a # as) s =
     (case step e ids flt a s of None \<Rightarrow> None | Some s' \<Rightarrow> run e ids flt as s')"

text \<open>
  The state at the call. An empty list returns at once (lines 251 to 253).
\<close>

definition init :: "uint list \<Rightarrow> state" where
  "init ids =
     \<lparr>todo = ids, tasks = [], processed = [], processed_closed = False,
      itemsMap = Map.empty, group_err = None, ctx_done = False, wait_closed = False,
      pc = (if ids = [] then Returned (Some [], None) else Spawning)\<rparr>"

text \<open>
  \<open>List\<close> under a schedule: \<open>Some (items, err)\<close> is what the call has returned
  (\<open>items = None\<close> is the \<open>nil\<close> slice); \<open>None\<close> says that the schedule cannot be run or
  that the call has not returned at its end.
\<close>

definition List :: "env \<Rightarrow> uint list \<Rightarrow> filter \<Rightarrow> action list \<Rightarrow> (Item list option \<times> error option) option" where
  "List e ids flt sched =
     (case run e ids flt sched (init ids) of
        None \<Rightarrow> None
      | Some s \<Rightarrow> (case pc s of Returned r \<Rightarrow> Some r | _ \<Rightarrow> None))"

text \<open>The errors the tasks of a schedule return, in the order they return them.\<close>

fun failures :: "env \<Rightarrow> action list \<Rightarrow> error list" where
  "failures e [] = []"
| "failures e (GetReturns k # as) =
     (case Get e k of Inl err \<Rightarrow> err # failures e as | Inr _ \<Rightarrow> failures e as)"
| "failures e (GetCanceled k # as) = ContextCanceled # failures e as"
| "failures e (_ # as) = failures e as"

definition first_failure :: "env \<Rightarrow> action list \<Rightarrow> error option" where
  "first_failure e sched = (case failures e sched of [] \<Rightarrow> None | err # _ \<Rightarrow> Some err)"

text \<open>The fetches in flight: the tasks that are inside \<open>s.Get\<close>.\<close>

fun fetching :: "task \<Rightarrow> bool" where
  "fetching (Fetching _) = True"
| "fetching (Sending _) = False"

definition in_flight :: "state \<Rightarrow> nat" where
  "in_flight s = length (filter fetching (tasks s))"

subsection \<open>What the specification asks of a retrieval\<close>

text \<open>
  Written from the specification, for comparison with \<open>List\<close>: the records of the
  identifiers whose fetch succeeded and whose record passes (no predicate, or the
  predicate holds), in the order of the identifiers.
\<close>

definition spec_retrieve :: "env \<Rightarrow> uint list \<Rightarrow> filter \<Rightarrow> Item list" where
  "spec_retrieve e ids flt =
     concat (map (\<lambda>k. case Get e k of
                          Inl _ \<Rightarrow> []
                        | Inr item \<Rightarrow> if flt = None \<or> (the flt) item then [item] else []) ids)"

subsection \<open>A schedule that runs the tasks one after the other\<close>

definition seq_task :: "env \<Rightarrow> filter \<Rightarrow> uint \<Rightarrow> action list" where
  "seq_task e flt k =
     Go # GetReturns k #
     (case Get e k of
        Inl _ \<Rightarrow> []
      | Inr item \<Rightarrow> if forwards flt item then [Send item, Receive] else [])"

fun seq_body :: "env \<Rightarrow> filter \<Rightarrow> uint list \<Rightarrow> action list" where
  "seq_body e flt [] = []"
| "seq_body e flt (k # ks) = seq_task e flt k @ seq_body e flt ks"

definition seq_sched :: "env \<Rightarrow> filter \<Rightarrow> uint list \<Rightarrow> action list" where
  "seq_sched e flt ids =
     (if ids = [] then []
      else seq_body e flt ids
           @ (if \<exists>k\<in>set ids. isl (Get e k) then [Wait]
              else [Wait, Close, SeeClosed, Finish]))"

subsection \<open>Invariants of the runs\<close>

text \<open>
  An item is accepted when it is the answer to one of the requested identifiers and the
  conditional of the task function sends it. A map is keyed when every entry sits under
  the \<open>ID\<close> field of its item and holds an accepted item.
\<close>

definition accepted :: "env \<Rightarrow> uint list \<Rightarrow> filter \<Rightarrow> Item \<Rightarrow> bool" where
  "accepted e ids flt item \<longleftrightarrow> (\<exists>k\<in>set ids. Get e k = Inr item) \<and> forwards flt item"

definition keyed :: "env \<Rightarrow> uint list \<Rightarrow> filter \<Rightarrow> (uint \<rightharpoonup> Item) \<Rightarrow> bool" where
  "keyed e ids flt m \<longleftrightarrow>
     (\<forall>k item. m k = Some item \<longrightarrow> ID item = k \<and> accepted e ids flt item)"

definition items_ok :: "env \<Rightarrow> uint list \<Rightarrow> filter \<Rightarrow> state \<Rightarrow> bool" where
  "items_ok e ids flt s \<longleftrightarrow>
     set (todo s) \<subseteq> set ids
     \<and> (\<forall>k. Fetching k \<in> set (tasks s) \<longrightarrow> k \<in> set ids)
     \<and> (\<forall>item. Sending item \<in> set (tasks s) \<longrightarrow> accepted e ids flt item)
     \<and> (\<forall>item\<in>set (processed s). accepted e ids flt item)
     \<and> keyed e ids flt (itemsMap s)"

definition result_ok :: "env \<Rightarrow> uint list \<Rightarrow> filter \<Rightarrow> state \<Rightarrow> bool" where
  "result_ok e ids flt s \<longleftrightarrow>
     (pc s \<noteq> Spawning \<longrightarrow> todo s = [] \<and> tasks s = [])
     \<and> (pc s = AfterWait \<or> pc s = AwaitCollector \<longrightarrow> group_err s = None)
     \<and> (\<forall>err. pc s = Returned (None, err) \<longrightarrow> err \<noteq> None \<and> err = group_err s)
     \<and> (\<forall>out err. pc s = Returned (Some out, err) \<longrightarrow>
            err = None \<and> group_err s = None
            \<and> (\<exists>m. keyed e ids flt m \<and> out = collect ids m))"

definition final_ok :: "uint list \<Rightarrow> state \<Rightarrow> bool" where
  "final_ok ids s \<longleftrightarrow>
     (\<forall>out err. pc s = Returned (Some out, err) \<longrightarrow>
        out = collect ids (itemsMap s) \<and> (ids \<noteq> [] \<longrightarrow> wait_closed s))"

definition pending_ok :: "env \<Rightarrow> uint list \<Rightarrow> state \<Rightarrow> bool" where
  "pending_ok e ids s \<longleftrightarrow>
     (group_err s = None \<longrightarrow>
        (\<forall>k\<in>set ids. (\<exists>err. Get e k = Inl err) \<longrightarrow>
            k \<in> set (todo s) \<or> Fetching k \<in> set (tasks s)))"

definition nf_ok :: "state \<Rightarrow> bool" where
  "nf_ok s \<longleftrightarrow>
     (group_err s = None \<or> group_err s = Some ErrNotFound)
     \<and> (group_err s = None \<and> pc s = Spawning \<longrightarrow> \<not> ctx_done s)"

definition nfc_ok :: "state \<Rightarrow> bool" where
  "nfc_ok s \<longleftrightarrow>
     group_err s = None \<or> group_err s = Some ErrNotFound
     \<or> group_err s = Some ContextCanceled"

definition placed :: "state \<Rightarrow> uint \<Rightarrow> Item \<Rightarrow> bool" where
  "placed s k item \<longleftrightarrow>
     k \<in> set (todo s) \<or> Fetching k \<in> set (tasks s) \<or> Sending item \<in> set (tasks s)
     \<or> item \<in> set (processed s) \<or> itemsMap s k = Some item"

definition drain_ok :: "env \<Rightarrow> uint list \<Rightarrow> filter \<Rightarrow> state \<Rightarrow> bool" where
  "drain_ok e ids flt s \<longleftrightarrow>
     (wait_closed s \<longrightarrow> processed s = [] \<and> pc s \<noteq> Spawning)
     \<and> (processed_closed s \<longrightarrow> pc s \<noteq> Spawning)
     \<and> (group_err s = None \<longrightarrow>
          (\<forall>k\<in>set ids. \<forall>item. Get e k = Inr item \<and> forwards flt item \<longrightarrow> placed s k item))"

text \<open>
  The same without any assumption on the identifiers the records carry: an accepted
  record is on its way, or some record is stored under its decoded \<open>ID\<close>.
\<close>

definition reached :: "state \<Rightarrow> uint \<Rightarrow> Item \<Rightarrow> bool" where
  "reached s k item \<longleftrightarrow>
     k \<in> set (todo s) \<or> Fetching k \<in> set (tasks s) \<or> Sending item \<in> set (tasks s)
     \<or> item \<in> set (processed s) \<or> ID item \<in> dom (itemsMap s)"

definition cover_ok :: "env \<Rightarrow> uint list \<Rightarrow> filter \<Rightarrow> state \<Rightarrow> bool" where
  "cover_ok e ids flt s \<longleftrightarrow>
     (wait_closed s \<longrightarrow> processed s = [] \<and> pc s \<noteq> Spawning)
     \<and> (processed_closed s \<longrightarrow> pc s \<noteq> Spawning)
     \<and> (group_err s = None \<longrightarrow>
          (\<forall>k\<in>set ids. \<forall>item. Get e k = Inr item \<and> forwards flt item \<longrightarrow> reached s k item))"

definition idle :: "state \<Rightarrow> bool" where
  "idle s \<longleftrightarrow>
     pc s = Spawning \<and> tasks s = [] \<and> processed s = [] \<and> \<not> wait_closed s
     \<and> \<not> processed_closed s"

text \<open>
  A state in which the collector has ended, the buffer is full and every remaining task
  is at its send: no task can return, so \<open>g.Wait\<close> cannot either.
\<close>

definition stuck :: "state \<Rightarrow> bool" where
  "stuck s \<longleftrightarrow>
     pc s = Spawning \<and> todo s = [] \<and> wait_closed s \<and> length (processed s) = capacity
     \<and> tasks s \<noteq> [] \<and> (\<forall>t\<in>set (tasks s). \<exists>item. t = Sending item)"

subsection \<open>Sample data\<close>

definition sample :: "uint \<Rightarrow> string \<Rightarrow> Item" where
  "sample k t =
     \<lparr>ID = k, By = ''pg'', Score = 0, Time = zero_Timestamp, Type = t,
      Item.Descendants = 0, Parts = [], Parent = 0, Item.Kids = [], Item.Text = [],
      Item.Title = [], Poll = 0, Item.URL = []\<rparr>"

definition scored :: "uint \<Rightarrow> go_int \<Rightarrow> Item" where
  "scored k n = (sample k ''story'')\<lparr>Score := n\<rparr>"

definition all_stories :: "uint \<Rightarrow> error + Item" where
  "all_stories k = Inr (sample k ''story'')"

definition missing_2 :: "uint \<Rightarrow> error + Item" where
  "missing_2 k = (if k = 2 then Inl ErrNotFound else Inr (sample k ''story''))"

definition missing_1_broken_2 :: "uint \<Rightarrow> error + Item" where
  "missing_1_broken_2 k =
     (if k = 1 then Inl ErrNotFound else if k = 2 then Inl TransportError
      else Inr (sample k ''story''))"

definition broken_1 :: "uint \<Rightarrow> error + Item" where
  "broken_1 k = (if k = 1 then Inl TransportError else Inr (sample k ''story''))"

definition broken_2 :: "uint \<Rightarrow> error + Item" where
  "broken_2 k = (if k = 2 then Inl TransportError else Inr (sample k ''story''))"

definition mixed_types :: "uint \<Rightarrow> error + Item" where
  "mixed_types k = Inr (sample k (if k = 6 then ''comment'' else ''story''))"

definition swapped_ids :: "uint \<Rightarrow> error + Item" where
  "swapped_ids k = Inr (sample (if k = 1 then 2 else if k = 2 then 1 else k) ''story'')"

definition both_id_2 :: "uint \<Rightarrow> error + Item" where
  "both_id_2 k = Inr (sample 2 (if k = 1 then ''story'' else ''comment''))"

definition without_id :: "uint \<Rightarrow> error + Item" where
  "without_id k = Inr (sample 0 ''story'')"

definition only_stories :: filter where
  "only_stories = Some (\<lambda>i. Type i = StoryType)"

definition ten :: "uint list" where
  "ten = [1, 2, 3, 4, 5, 6, 7, 8, 9, 10]"

definition twelve :: "uint list" where
  "twelve = [1, 2, 3, 4, 5, 6, 7, 8, 9, 10, 11, 12]"

definition hang_prefix :: "action list" where
  "hang_prefix =
     [Go, Go, Go, Go, Go, Go, Go, Go, Go, Go, Go, Go]
     @ map GetReturns [2, 3, 4, 5, 6, 7, 8, 9, 10, 11, 12, 1]
     @ [SeeDone]
     @ map (\<lambda>k. Send (sample k ''story'')) [2, 3, 4, 5, 6, 7, 8, 9, 10, 11]"

section \<open>Facts about the sample data\<close>

lemma sample_simps [simp]:
  "ID (sample k t) = k" "Type (sample k t) = t"
  "sample k t = sample k' t' \<longleftrightarrow> k = k' \<and> t = t'"
  by (auto simp: sample_def)

lemma scored_simps [simp]:
  "ID (scored k n) = k" "Score (scored k n) = n"
  "scored k n = scored k' n' \<longleftrightarrow> k = k' \<and> n = n'"
  by (auto simp: scored_def sample_def)

section \<open>The sorter is stable\<close>

lemma Compare_neg: "Compare x y < 0 \<longleftrightarrow> x < y"
  by (simp add: Compare_def)

lemma mset_insert_cmp: "mset (insert_cmp cmp x ys) = add_mset x (mset ys)"
  by (induction ys) simp_all

lemma mset_Sort: "mset (Sort xs cmp) = mset xs"
  unfolding Sort_def by (induction xs) (simp_all add: mset_insert_cmp)

lemma set_insert_cmp: "set (insert_cmp cmp x ys) = insert x (set ys)"
  by (induction ys) auto

lemma filter_insert_asc:
  "filter (\<lambda>y. f y = k) (insert_cmp (\<lambda>a b. Compare (f a) (f b)) x ys) =
     (if f x = k then x # filter (\<lambda>y. f y = k) ys else filter (\<lambda>y. f y = k) ys)"
  by (induction ys) (auto simp: Compare_neg)

lemma filter_insert_desc:
  "filter (\<lambda>y. f y = k) (insert_cmp (\<lambda>a b. Compare (f b) (f a)) x ys) =
     (if f x = k then x # filter (\<lambda>y. f y = k) ys else filter (\<lambda>y. f y = k) ys)"
  by (induction ys) (auto simp: Compare_neg)

lemma Sort_stable_asc:
  "filter (\<lambda>y. f y = k) (Sort xs (\<lambda>a b. Compare (f a) (f b))) = filter (\<lambda>y. f y = k) xs"
  unfolding Sort_def by (induction xs) (simp_all add: filter_insert_asc)

lemma Sort_stable_desc:
  "filter (\<lambda>y. f y = k) (Sort xs (\<lambda>a b. Compare (f b) (f a))) = filter (\<lambda>y. f y = k) xs"
  unfolding Sort_def by (induction xs) (simp_all add: filter_insert_desc)

lemma sorted_insert_asc:
  "sorted_wrt (\<lambda>a b. f a \<le> f b) ys \<Longrightarrow>
   sorted_wrt (\<lambda>a b. f a \<le> f b) (insert_cmp (\<lambda>a b. Compare (f a) (f b)) x ys)"
  by (induction ys) (auto simp: Compare_neg set_insert_cmp)

lemma sorted_insert_desc:
  "sorted_wrt (\<lambda>a b. f b \<le> f a) ys \<Longrightarrow>
   sorted_wrt (\<lambda>a b. f b \<le> f a) (insert_cmp (\<lambda>a b. Compare (f b) (f a)) x ys)"
  by (induction ys) (auto simp: Compare_neg set_insert_cmp)

lemma Sort_sorted_asc:
  "sorted_wrt (\<lambda>a b. f a \<le> f b) (Sort xs (\<lambda>a b. Compare (f a) (f b)))"
  unfolding Sort_def by (induction xs) (simp_all add: sorted_insert_asc)

lemma Sort_sorted_desc:
  "sorted_wrt (\<lambda>a b. f b \<le> f a) (Sort xs (\<lambda>a b. Compare (f b) (f a)))"
  unfolding Sort_def by (induction xs) (simp_all add: sorted_insert_desc)

text \<open>
  With an ascending comparator on a key, the stable insertion is the library's
  \<open>sort_key\<close>, which is the only list that is a permutation of the input, sorted by
  the key and stable (\<open>properties_for_sort_key\<close>): every stable sort gives it.
\<close>

lemma insert_cmp_insort:
  "insert_cmp (\<lambda>a b. Compare (f a) (f b)) x ys = insort_key f x ys"
  by (induction ys) (auto simp: Compare_neg)

lemma Sort_asc_sort_key: "Sort xs (\<lambda>a b. Compare (f a) (f b)) = sort_key f xs"
  unfolding Sort_def by (induction xs) (simp_all add: insert_cmp_insort)

text \<open>
  The four sorts do sort: ascending puts the keys in non-decreasing order, descending in
  non-increasing order, and both keep the items (with their multiplicities).
\<close>

lemma SortScore_sorts:
  "sorted_wrt (\<lambda>a b. getScore a \<le> getScore b) (SortScore items Ascending)
   \<and> sorted_wrt (\<lambda>a b. getScore b \<le> getScore a) (SortScore items Descending)
   \<and> mset (SortScore items order) = mset items"
  by (simp add: SortScore_def Ascending_def Descending_def Sort_sorted_asc Sort_sorted_desc
      mset_Sort)

lemma SortID_sorts:
  "sorted_wrt (\<lambda>a b. getID a \<le> getID b) (SortID items Ascending)
   \<and> sorted_wrt (\<lambda>a b. getID b \<le> getID a) (SortID items Descending)
   \<and> mset (SortID items order) = mset items"
  by (simp add: SortID_def Ascending_def Descending_def Sort_sorted_asc Sort_sorted_desc
      mset_Sort)

lemma SortTime_sorts:
  "sorted_wrt (\<lambda>a b. timeKey a \<le> timeKey b) (SortTime items Ascending)
   \<and> sorted_wrt (\<lambda>a b. timeKey b \<le> timeKey a) (SortTime items Descending)
   \<and> mset (SortTime items order) = mset items"
  by (simp add: SortTime_def Ascending_def Descending_def Sort_sorted_asc Sort_sorted_desc
      mset_Sort)

lemma SortType_sorts:
  "sorted_wrt (\<lambda>a b. getType a \<le> getType b) (SortType items Ascending)
   \<and> sorted_wrt (\<lambda>a b. getType b \<le> getType a) (SortType items Descending)
   \<and> mset (SortType items order) = mset items"
  by (simp add: SortType_def Ascending_def Descending_def Sort_sorted_asc Sort_sorted_desc
      mset_Sort)

lemma SortID_keeps_ties:
  "filter (\<lambda>x. getID x = k) (SortID items order) = filter (\<lambda>x. getID x = k) items"
  by (simp add: SortID_def Sort_stable_asc Sort_stable_desc)

lemma SortScore_keeps_ties:
  "filter (\<lambda>x. getScore x = k) (SortScore items order) = filter (\<lambda>x. getScore x = k) items"
  by (simp add: SortScore_def Sort_stable_asc Sort_stable_desc)

lemma SortTime_keeps_ties:
  "filter (\<lambda>x. timeKey x = k) (SortTime items order) = filter (\<lambda>x. timeKey x = k) items"
  by (simp add: SortTime_def Sort_stable_asc Sort_stable_desc)

lemma SortType_keeps_ties:
  "filter (\<lambda>x. getType x = k) (SortType items order) = filter (\<lambda>x. getType x = k) items"
  by (simp add: SortType_def Sort_stable_asc Sort_stable_desc)

lemma getScore_eq_iff: "getScore x = getScore y \<longleftrightarrow> Score x = Score y"
  by (auto simp: getScore_def intro: signed_word_eqI)

text \<open>
  Claim C7. For every slice of sortable items, every key among identifier, score,
  creation time and type tag, and every direction, the sort is stable: the items that
  compare equal under the key (those with one given key value) come out in the order
  they went in. This holds for \<open>Descending\<close> as for \<open>Ascending\<close>: the descending sort
  swaps the arguments of the comparator and sorts once, so ties are not reversed. (For
  any other value of the direction the slice is left as it is.)
\<close>

theorem Sort_stable:
  "filter (\<lambda>x. getID x = k1) (SortID items order) = filter (\<lambda>x. getID x = k1) items
   \<and> filter (\<lambda>x. getScore x = k2) (SortScore items order)
       = filter (\<lambda>x. getScore x = k2) items
   \<and> filter (\<lambda>x. timeKey x = k3) (SortTime items order)
       = filter (\<lambda>x. timeKey x = k3) items
   \<and> filter (\<lambda>x. getType x = k4) (SortType items order)
       = filter (\<lambda>x. getType x = k4) items"
  using SortID_keeps_ties SortScore_keeps_ties SortTime_keeps_ties SortType_keeps_ties
  by blast

text \<open>
  The example of the specification: items scored 1, 3, 5, 5 sorted descending come out
  as 5, 5, 3, 1, and the two items scored 5 (identifiers 3 and 4) keep their order.
\<close>

theorem Sort_stable_witness:
  "filter (\<lambda>x. getScore x = 5)
     (SortScore [scored 1 1, scored 2 3, scored 3 5, scored 4 5] Descending)
     = [scored 3 5, scored 4 5]
   \<and> SortScore [scored 1 1, scored 2 3, scored 3 5, scored 4 5] Descending
     = [scored 3 5, scored 4 5, scored 2 3, scored 1 1]
   \<and> SortScore [scored 1 5, scored 2 3, scored 3 5, scored 4 1] Ascending
     = [scored 4 1, scored 2 3, scored 1 5, scored 3 5]"
  using Sort_stable [of 0 "[scored 1 1, scored 2 3, scored 3 5, scored 4 5]" Descending
      5 0 "''''"]
  by (simp add: SortScore_def Sort_def Ascending_def Descending_def Compare_def getScore_def)

section \<open>The projection\<close>

lemma converters_simps:
  "converters StoryType = Some (\<lambda>i. CStory (ToStory i))"
  "converters CommentType = Some (\<lambda>i. CComment (ToComment i))"
  "converters AskType = Some (\<lambda>i. CAsk (ToAsk i))"
  "converters JobType = Some (\<lambda>i. CJob (ToJob i))"
  "converters PollType = Some (\<lambda>i. CPoll (ToPoll i))"
  "converters PollOptionType = Some (\<lambda>i. CPollOption (ToPollOption i))"
  by (simp_all add: converters_def StoryType_def CommentType_def AskType_def JobType_def
      PollType_def PollOptionType_def)

lemma To_TStory:
  "To TStory item =
     (if Type item = StoryType then Inr (CStory (ToStory item))
      else Inl (MismatchedTypes StoryType (Type item)))"
  by (simp add: To_def converters_simps)

lemma To_TComment:
  "To TComment item =
     (if Type item = CommentType then Inr (CComment (ToComment item))
      else Inl (MismatchedTypes CommentType (Type item)))"
  by (simp add: To_def converters_simps)

lemma To_TAsk:
  "To TAsk item =
     (if Type item = AskType then Inr (CAsk (ToAsk item))
      else Inl (MismatchedTypes AskType (Type item)))"
  by (simp add: To_def converters_simps)

lemma To_TJob:
  "To TJob item =
     (if Type item = JobType then Inr (CJob (ToJob item))
      else Inl (MismatchedTypes JobType (Type item)))"
  by (simp add: To_def converters_simps)

lemma To_TPoll:
  "To TPoll item =
     (if Type item = PollType then Inr (CPoll (ToPoll item))
      else Inl (MismatchedTypes PollType (Type item)))"
  by (simp add: To_def converters_simps)

lemma To_TPollOption:
  "To TPollOption item =
     (if Type item = PollOptionType then Inr (CPollOption (ToPollOption item))
      else Inl (MismatchedTypes PollOptionType (Type item)))"
  by (simp add: To_def converters_simps)

lemma dynamic_type_not_other: "dynamic_type v \<noteq> TOther tag"
  by (cases v) simp_all

text \<open>
  The branch for an unsupported tag is reached only through a target type of the
  caller's own: one whose tag no converter knows. With a tag that a converter does know,
  such a target makes the type assertion panic.
\<close>

lemma To_other:
  "To (TOther tag) item =
     (if Type item \<noteq> tag then Inl (MismatchedTypes tag (Type item))
      else if converters tag = None then Inl (UnsupportedType tag)
      else Inl PanicTypeAssertion)"
  by (auto simp: To_def Let_def dynamic_type_not_other split: option.splits)

text \<open>
  Claim C8, as the specification states it, fails: an item whose tag matches no known
  variant, projected to \<open>Story\<close>, gets the type-mismatch error and not the
  unsupported-tag error, because the tags are compared before the converter is looked
  up.
\<close>

theorem To_unknown_tag_is_mismatch:
  "converters (Type (sample 1 ''foo'')) = None
   \<and> To TStory (sample 1 ''foo'') = Inl (MismatchedTypes ''story'' ''foo'')"
  by (simp add: To_TStory sample_def converters_def StoryType_def CommentType_def
      AskType_def JobType_def PollType_def PollOptionType_def)

text \<open>
  Claim C8, amended. For every item and each of the six variant targets, \<open>To\<close> returns
  the type-mismatch error exactly when the tag of the item differs from the fixed tag of
  the target (a tag that matches no known variant included), and otherwise returns the
  narrowed variant with no error; it never returns the unsupported-tag error for a
  variant target.
\<close>

theorem To_variant_result:
  "To TStory item =
     (if Type item = StoryType then Inr (CStory (ToStory item))
      else Inl (MismatchedTypes StoryType (Type item)))
   \<and> To TComment item =
     (if Type item = CommentType then Inr (CComment (ToComment item))
      else Inl (MismatchedTypes CommentType (Type item)))
   \<and> To TAsk item =
     (if Type item = AskType then Inr (CAsk (ToAsk item))
      else Inl (MismatchedTypes AskType (Type item)))
   \<and> To TJob item =
     (if Type item = JobType then Inr (CJob (ToJob item))
      else Inl (MismatchedTypes JobType (Type item)))
   \<and> To TPoll item =
     (if Type item = PollType then Inr (CPoll (ToPoll item))
      else Inl (MismatchedTypes PollType (Type item)))
   \<and> To TPollOption item =
     (if Type item = PollOptionType then Inr (CPollOption (ToPollOption item))
      else Inl (MismatchedTypes PollOptionType (Type item)))
   \<and> (is_variant c \<longrightarrow> To c item \<noteq> Inl (UnsupportedType t))"
proof -
  have "is_variant c \<longrightarrow> To c item \<noteq> Inl (UnsupportedType t)"
    by (cases c) (simp_all add: To_TStory To_TComment To_TAsk To_TJob To_TPoll To_TPollOption)
  then show ?thesis
    using To_TStory To_TComment To_TAsk To_TJob To_TPoll To_TPollOption by blast
qed

theorem To_variant_result_witness:
  "To TComment (sample 7 ''comment'') = Inr (CComment (ToComment (sample 7 ''comment'')))
   \<and> To TStory (sample 7 ''comment'') = Inl (MismatchedTypes ''story'' ''comment'')
   \<and> is_variant TStory
   \<and> To TStory (sample 7 ''comment'') \<noteq> Inl (UnsupportedType ''comment'')"
  using To_variant_result [of "sample 7 ''comment''" TStory "''comment''"]
  by (simp add: StoryType_def CommentType_def)

section \<open>Timestamps\<close>

lemma json_zero: "json_Unmarshal_int64 ''0'' = Inr 0"
  by (simp add: json_Unmarshal_int64_def trim_space_def is_space_def json_integer_def
      json_digits_def is_digit_def decimal_def digit_val_def)

lemma json_sample: "json_Unmarshal_int64 ''1175714200'' = Inr 1175714200"
  by (simp add: json_Unmarshal_int64_def trim_space_def is_space_def json_integer_def
      json_digits_def is_digit_def decimal_def digit_val_def)

lemma Unix_0: "Unix n 0 = \<lparr>wall = 0, ext = n + unixToInternal, loc = Local\<rparr>"
  by (simp add: Unix_def unixTime_def)

lemma Unix_seconds_Unix: "Unix_seconds (Unix n 0) = n"
  by (simp add: Unix_0 Unix_seconds_def sec_def internalToUnix_def)

lemma IsZero_Unix: "IsZero (Unix n 0) \<longleftrightarrow> n = - unixToInternal"
  by (auto simp add: Unix_0 IsZero_def sec_def nsec_def nsecMask_def eq_neg_iff_add_eq_0)

lemma UnmarshalJSON_Inr:
  "json_Unmarshal_int64 data = Inr n \<Longrightarrow>
   UnmarshalJSON t data = (None, t\<lparr>Timestamp.Time := Unix n 0\<rparr>)"
  by (simp add: UnmarshalJSON_def)

lemma UnmarshalJSON_Inl:
  "json_Unmarshal_int64 data = Inl err \<Longrightarrow> UnmarshalJSON t data = (Some err, t)"
  by (simp add: UnmarshalJSON_def)

text \<open>
  Claim C5, as the specification states it, fails: the input \<open>0\<close> decodes to
  \<open>time.Unix(0, 0)\<close>, which is the instant at epoch zero itself, and \<open>IsZero\<close> is
  false of it; there is no unset state among the decoded values.
\<close>

theorem UnmarshalJSON_zero_is_epoch:
  "snd (UnmarshalJSON zero_Timestamp ''0'') = \<lparr>Timestamp.Time = Unix 0 0\<rparr>
   \<and> Unix_seconds (Unix 0 0) = 0
   \<and> \<not> IsZero (Timestamp.Time (snd (UnmarshalJSON zero_Timestamp ''0'')))"
  by (simp add: UnmarshalJSON_Inr [OF json_zero] zero_Timestamp_def Unix_seconds_Unix
      IsZero_Unix unixToInternal_def)

text \<open>
  Claim C5, amended. For every integer epoch-seconds input \<open>n\<close>,
  \<open>Timestamp.UnmarshalJSON\<close> reports no error and sets the timestamp to the instant
  \<open>time.Unix(n, 0)\<close>, \<open>n\<close> seconds from the epoch. The input zero gives the instant at
  epoch zero, which is not the zero (unset) \<open>Timestamp\<close> that a field never decoded
  keeps; the only input that decodes to a zero time is \<open>-62135596800\<close>.
\<close>

theorem UnmarshalJSON_decodes_instant:
  "json_Unmarshal_int64 data = Inr n \<Longrightarrow>
     UnmarshalJSON t data = (None, t\<lparr>Timestamp.Time := Unix n 0\<rparr>)
     \<and> Unix_seconds (Unix n 0) = n
     \<and> (IsZero (Unix n 0) \<longleftrightarrow> n = - 62135596800)
     \<and> (n = 0 \<longrightarrow> t\<lparr>Timestamp.Time := Unix n 0\<rparr> \<noteq> zero_Timestamp)"
proof -
  assume d: "json_Unmarshal_int64 data = Inr n"
  have 1: "UnmarshalJSON t data = (None, t\<lparr>Timestamp.Time := Unix n 0\<rparr>)"
    by (rule UnmarshalJSON_Inr [OF d])
  have 2: "IsZero (Unix n 0) \<longleftrightarrow> n = - 62135596800"
    by (simp add: IsZero_Unix unixToInternal_def)
  have 3: "n = 0 \<longrightarrow> t\<lparr>Timestamp.Time := Unix n 0\<rparr> \<noteq> zero_Timestamp"
  proof
    assume "n = 0"
    then have "Timestamp.Time (t\<lparr>Timestamp.Time := Unix n 0\<rparr>) \<noteq> Timestamp.Time zero_Timestamp"
      by (simp add: Unix_0 zero_Timestamp_def zero_Time_def)
    then show "t\<lparr>Timestamp.Time := Unix n 0\<rparr> \<noteq> zero_Timestamp"
      by (metis Timestamp.select_convs(1) Timestamp.surjective Timestamp.update_convs(1))
  qed
  show ?thesis
    using 1 2 3 Unix_seconds_Unix [of n] by blast
qed

theorem UnmarshalJSON_decodes_instant_witness:
  "json_Unmarshal_int64 ''1175714200'' = Inr 1175714200
   \<and> UnmarshalJSON zero_Timestamp ''1175714200''
       = (None, \<lparr>Timestamp.Time = Unix 1175714200 0\<rparr>)
   \<and> Unix_seconds (Unix 1175714200 0) = 1175714200
   \<and> \<not> IsZero (Unix 1175714200 0)"
  using UnmarshalJSON_decodes_instant [OF json_sample, of zero_Timestamp] json_sample
  by (simp add: zero_Timestamp_def)

section \<open>Runs of List\<close>

text \<open>
  A property that every step keeps, and that holds at the call, holds in every state a
  schedule reaches.
\<close>

lemma run_invariant:
  assumes "\<And>a s s'. P s \<Longrightarrow> step e ids flt a s = Some s' \<Longrightarrow> P s'"
    and "P s" and "run e ids flt sched s = Some s'"
  shows "P s'"
  using assms(2,3)
proof (induction sched arbitrary: s)
  case Nil
  then show ?case by simp
next
  case (Cons a as)
  from Cons.prems(2) obtain s1 where s1: "step e ids flt a s = Some s1" "run e ids flt as s1 = Some s'"
    by (auto split: option.splits)
  from assms(1)[OF Cons.prems(1) s1(1)] have "P s1" .
  from Cons.IH[OF this s1(2)] show ?case .
qed

lemma run_append:
  "run e ids flt (as @ bs) s =
     (case run e ids flt as s of None \<Rightarrow> None | Some s' \<Rightarrow> run e ids flt bs s')"
  by (induction as arbitrary: s) (auto split: option.splits)

subsection \<open>The limit on active tasks\<close>

lemma length_remove1_mem: "x \<in> set xs \<Longrightarrow> Suc (length (remove1 x xs)) = length xs"
  by (induction xs) auto

lemma step_cap:
  assumes "0 \<le> maxWorkers e" "int (length (tasks s)) \<le> maxWorkers e" "step e ids flt a s = Some s'"
  shows "int (length (tasks s')) \<le> maxWorkers e"
proof (cases a)
  case Go
  with assms show ?thesis by (auto split: list.splits if_splits)
next
  case (GetReturns k)
  with assms show ?thesis
    using length_remove1_mem[of "Fetching k" "tasks s"]
    by (auto simp: task_returns_def split: if_splits sum.splits)
next
  case (GetCanceled k)
  with assms show ?thesis
    using length_remove1_mem[of "Fetching k" "tasks s"]
    by (auto simp: task_returns_def split: if_splits)
next
  case (Send item)
  with assms show ?thesis
    using length_remove1_mem[of "Sending item" "tasks s"]
    by (auto simp: task_returns_def split: if_splits)
next
  case Receive
  with assms show ?thesis by (auto split: list.splits if_splits)
next
  case Wait
  with assms show ?thesis by (auto split: option.splits if_splits)
qed (use assms in \<open>auto split: if_splits\<close>)

lemma run_cap:
  assumes "0 \<le> maxWorkers e" "run e ids flt sched (init ids) = Some s"
  shows "int (length (tasks s)) \<le> maxWorkers e"
proof (rule run_invariant[where P = "\<lambda>s. int (length (tasks s)) \<le> maxWorkers e", OF _ _ assms(2)])
  show "int (length (tasks (init ids))) \<le> maxWorkers e"
    using assms(1) by (simp add: init_def)
qed (rule step_cap[OF assms(1)])

subsection \<open>The steps, case by case\<close>

lemma step_cases [consumes 1, case_names Go GetErr GetFwd GetDrop GetCanceled Send Receive SeeClosed SeeDone WaitErr WaitOk Close Finish CallerCancel]:
  assumes "step e ids flt a s = Some s'"
  obtains
    (Go) k rest where "a = Go" "todo s = k # rest" "pc s = Spawning"
      "maxWorkers e < 0 \<or> int (length (tasks s)) < maxWorkers e"
      "s' = s\<lparr>todo := rest, tasks := tasks s @ [Fetching k]\<rparr>"
  | (GetErr) k err where "a = GetReturns k" "Fetching k \<in> set (tasks s)" "Get e k = Inl err"
      "s' = s\<lparr>tasks := remove1 (Fetching k) (tasks s),
              group_err := (if group_err s = None then Some err else group_err s),
              ctx_done := True\<rparr>"
  | (GetFwd) k item where "a = GetReturns k" "Fetching k \<in> set (tasks s)" "Get e k = Inr item"
      "forwards flt item"
      "s' = s\<lparr>tasks := remove1 (Fetching k) (tasks s) @ [Sending item]\<rparr>"
  | (GetDrop) k item where "a = GetReturns k" "Fetching k \<in> set (tasks s)" "Get e k = Inr item"
      "\<not> forwards flt item"
      "s' = s\<lparr>tasks := remove1 (Fetching k) (tasks s)\<rparr>"
  | (GetCanceled) k where "a = GetCanceled k" "Fetching k \<in> set (tasks s)" "ctx_done s"
      "s' = s\<lparr>tasks := remove1 (Fetching k) (tasks s),
              group_err := (if group_err s = None then Some ContextCanceled else group_err s),
              ctx_done := True\<rparr>"
  | (Send) item where "a = Send item" "Sending item \<in> set (tasks s)"
      "length (processed s) < capacity"
      "s' = s\<lparr>processed := processed s @ [item], tasks := remove1 (Sending item) (tasks s)\<rparr>"
  | (Receive) item rest where "a = Receive" "processed s = item # rest" "\<not> wait_closed s"
      "s' = s\<lparr>processed := rest, itemsMap := (itemsMap s)(ID item \<mapsto> item)\<rparr>"
  | (SeeClosed) "a = SeeClosed" "\<not> wait_closed s" "processed s = []" "processed_closed s"
      "s' = s\<lparr>wait_closed := True\<rparr>"
  | (SeeDone) "a = SeeDone" "\<not> wait_closed s" "ctx_done s" "s' = s\<lparr>wait_closed := True\<rparr>"
  | (WaitErr) err where "a = Wait" "pc s = Spawning" "todo s = []" "tasks s = []"
      "group_err s = Some err" "s' = s\<lparr>ctx_done := True, pc := Returned (None, Some err)\<rparr>"
  | (WaitOk) "a = Wait" "pc s = Spawning" "todo s = []" "tasks s = []"
      "group_err s = None" "s' = s\<lparr>ctx_done := True, pc := AfterWait\<rparr>"
  | (Close) "a = Close" "pc s = AfterWait"
      "s' = s\<lparr>processed_closed := True, pc := AwaitCollector\<rparr>"
  | (Finish) "a = Finish" "pc s = AwaitCollector" "wait_closed s"
      "s' = s\<lparr>pc := Returned (Some (collect ids (itemsMap s)), None)\<rparr>"
  | (CallerCancel) "a = CallerCancel" "s' = s\<lparr>ctx_done := True\<rparr>"
proof (cases a)
  case Go
  show ?thesis
  proof (cases "todo s")
    case Nil
    with assms Go show ?thesis by simp
  next
    case (Cons k rest)
    with assms Go have "pc s = Spawning"
      "maxWorkers e < 0 \<or> int (length (tasks s)) < maxWorkers e"
      "s' = s\<lparr>todo := rest, tasks := tasks s @ [Fetching k]\<rparr>"
      by (simp_all split: if_splits)
    then show ?thesis using that(1) Go Cons by blast
  qed
next
  case (GetReturns k)
  with assms have mem: "Fetching k \<in> set (tasks s)"
    by (simp split: if_splits)
  show ?thesis
  proof (cases "Get e k")
    case (Inl err)
    with assms GetReturns mem
    have "s' = s\<lparr>tasks := remove1 (Fetching k) (tasks s),
              group_err := (if group_err s = None then Some err else group_err s),
              ctx_done := True\<rparr>"
      by (simp add: task_returns_def)
    then show ?thesis using that(2) GetReturns mem Inl by blast
  next
    case (Inr item)
    show ?thesis
    proof (cases "forwards flt item")
      case True
      with assms GetReturns mem Inr
      have "s' = s\<lparr>tasks := remove1 (Fetching k) (tasks s) @ [Sending item]\<rparr>"
        by simp
      then show ?thesis using that(3) GetReturns mem Inr True by blast
    next
      case False
      with assms GetReturns mem Inr
      have "s' = s\<lparr>tasks := remove1 (Fetching k) (tasks s)\<rparr>"
        by (simp add: task_returns_def)
      then show ?thesis using that(4) GetReturns mem Inr False by blast
    qed
  qed
next
  case (GetCanceled k)
  with assms have g: "Fetching k \<in> set (tasks s)" "ctx_done s"
    by (simp_all split: if_splits)
  with assms GetCanceled
  have "s' = s\<lparr>tasks := remove1 (Fetching k) (tasks s),
              group_err := (if group_err s = None then Some ContextCanceled else group_err s),
              ctx_done := True\<rparr>"
    by (simp add: task_returns_def)
  then show ?thesis using that(5) GetCanceled g by blast
next
  case (Send item)
  with assms have g: "Sending item \<in> set (tasks s)" "length (processed s) < capacity"
    by (simp_all split: if_splits)
  with assms Send
  have "s' = s\<lparr>processed := processed s @ [item], tasks := remove1 (Sending item) (tasks s)\<rparr>"
    by (simp add: task_returns_def)
  then show ?thesis using that(6) Send g by blast
next
  case Receive
  show ?thesis
  proof (cases "processed s")
    case Nil
    with assms Receive show ?thesis by simp
  next
    case (Cons item rest)
    with assms Receive have "\<not> wait_closed s"
      "s' = s\<lparr>processed := rest, itemsMap := (itemsMap s)(ID item \<mapsto> item)\<rparr>"
      by (simp_all split: if_splits)
    then show ?thesis using that(7) Receive Cons by blast
  qed
next
  case SeeClosed
  with assms have "\<not> wait_closed s" "processed s = []" "processed_closed s"
    "s' = s\<lparr>wait_closed := True\<rparr>"
    by (simp_all split: if_splits)
  then show ?thesis using that(8) SeeClosed by blast
next
  case SeeDone
  with assms have "\<not> wait_closed s" "ctx_done s" "s' = s\<lparr>wait_closed := True\<rparr>"
    by (simp_all split: if_splits)
  then show ?thesis using that(9) SeeDone by blast
next
  case Wait
  with assms have g: "pc s = Spawning" "todo s = []" "tasks s = []"
    by (simp_all split: if_splits)
  show ?thesis
  proof (cases "group_err s")
    case None
    with assms Wait g have "s' = s\<lparr>ctx_done := True, pc := AfterWait\<rparr>"
      by simp
    then show ?thesis using that(11) Wait g None by blast
  next
    case (Some err)
    with assms Wait g have "s' = s\<lparr>ctx_done := True, pc := Returned (None, Some err)\<rparr>"
      by simp
    then show ?thesis using that(10) Wait g Some by blast
  qed
next
  case Close
  with assms have "pc s = AfterWait" "s' = s\<lparr>processed_closed := True, pc := AwaitCollector\<rparr>"
    by (simp_all split: if_splits)
  then show ?thesis using that(12) Close by blast
next
  case Finish
  with assms have "pc s = AwaitCollector" "wait_closed s"
    "s' = s\<lparr>pc := Returned (Some (collect ids (itemsMap s)), None)\<rparr>"
    by (simp_all split: if_splits)
  then show ?thesis using that(13) Finish by blast
next
  case CallerCancel
  with assms have "s' = s\<lparr>ctx_done := True\<rparr>"
    by simp
  then show ?thesis using that(14) CallerCancel by blast
qed

lemma step_shape:
  assumes "step e ids flt a s = Some s'" "pc s \<noteq> Spawning \<longrightarrow> todo s = [] \<and> tasks s = []"
  shows "pc s' \<noteq> Spawning \<longrightarrow> todo s' = [] \<and> tasks s' = []"
  using assms(1) by (cases rule: step_cases) (use assms(2) in auto)

lemma run_invariant_on:
  "run e ids flt sched s = Some s' \<Longrightarrow> P s \<Longrightarrow>
   (\<forall>a\<in>set sched. \<forall>s s'. P s \<longrightarrow> step e ids flt a s = Some s' \<longrightarrow> P s') \<Longrightarrow> P s'"
proof (induction sched arbitrary: s)
  case Nil
  then show ?case by simp
next
  case (Cons a as)
  from Cons.prems(1) obtain s1 where s1: "step e ids flt a s = Some s1" "run e ids flt as s1 = Some s'"
    by (auto split: option.splits)
  have 1: "P s1" using Cons.prems(2,3) s1(1) by (meson list.set_intros(1))
  have 2: "\<forall>a\<in>set as. \<forall>s s'. P s \<longrightarrow> step e ids flt a s = Some s' \<longrightarrow> P s'"
    using Cons.prems(3) by (meson list.set_intros(2))
  show ?case by (rule Cons.IH[OF s1(2) 1 2])
qed

subsection \<open>Where the items of a run come from\<close>

lemma in_set_remove1D: "y \<in> set (remove1 x xs) \<Longrightarrow> y \<in> set xs"
  by (induction xs) (auto split: if_splits)

lemma step_items_ok:
  assumes "step e ids flt a s = Some s'" "items_ok e ids flt s"
  shows "items_ok e ids flt s'"
  using assms(1)
proof (cases rule: step_cases)
  case (GetFwd k item)
  with assms(2) show ?thesis
    by (auto simp: items_ok_def accepted_def dest: in_set_remove1D)
next
  case (Receive item rest)
  with assms(2) show ?thesis
    by (auto simp: items_ok_def keyed_def)
qed (use assms(2) in \<open>auto simp: items_ok_def dest: in_set_remove1D\<close>)

lemma run_items_ok:
  assumes "run e ids flt sched (init ids) = Some s"
  shows "items_ok e ids flt s"
proof (rule run_invariant[where P = "items_ok e ids flt", OF _ _ assms])
  show "items_ok e ids flt (init ids)"
    by (simp add: init_def items_ok_def keyed_def)
qed (rule step_items_ok)

subsection \<open>The last loop\<close>

lemma collect_mem: "item \<in> set (collect ids m) \<Longrightarrow> \<exists>k\<in>set ids. m k = Some item"
  by (induction ids) (auto split: option.splits)

lemma collect_IDs:
  "\<forall>k item. m k = Some item \<longrightarrow> ID item = k \<Longrightarrow>
   map ID (collect ids m) = filter (\<lambda>k. k \<in> dom m) ids"
  by (induction ids) (auto split: option.splits)

lemma collect_dom:
  "\<forall>k item. m k = Some item \<longrightarrow> ID item = k \<Longrightarrow> k \<in> set ids \<Longrightarrow>
   k \<in> ID ` set (collect ids m) \<longleftrightarrow> k \<in> dom m"
  by (induction ids) (auto split: option.splits dest: collect_mem)

lemma collect_IDs_out:
  assumes "\<forall>k item. m k = Some item \<longrightarrow> ID item = k"
  shows "map ID (collect ids m) = filter (\<lambda>k. k \<in> ID ` set (collect ids m)) ids"
proof -
  have "filter (\<lambda>k. k \<in> ID ` set (collect ids m)) ids = filter (\<lambda>k. k \<in> dom m) ids"
    by (rule filter_cong[OF refl]) (use collect_dom[OF assms] in blast)
  then show ?thesis using collect_IDs[OF assms] by simp
qed

subsection \<open>What a call returns\<close>

lemma step_result_ok:
  assumes "step e ids flt a s = Some s'" "items_ok e ids flt s" "result_ok e ids flt s"
  shows "result_ok e ids flt s'"
  using assms(1)
proof (cases rule: step_cases)
  case Finish
  with assms(2,3) show ?thesis
    by (auto simp: result_ok_def items_ok_def)
qed (use assms(3) in \<open>auto simp: result_ok_def\<close>)

lemma init_result_ok: "result_ok e ids flt (init ids)"
proof -
  have "keyed e ids flt Map.empty" by (simp add: keyed_def)
  moreover have "[] = collect [] Map.empty" by simp
  ultimately show ?thesis
    by (auto simp: result_ok_def init_def)
qed

lemma run_result_ok:
  assumes "run e ids flt sched (init ids) = Some s"
  shows "result_ok e ids flt s"
proof -
  have "items_ok e ids flt s \<and> result_ok e ids flt s"
  proof (rule run_invariant[where P = "\<lambda>s. items_ok e ids flt s \<and> result_ok e ids flt s", OF _ _ assms])
    show "items_ok e ids flt (init ids) \<and> result_ok e ids flt (init ids)"
      using init_result_ok by (simp add: init_def items_ok_def keyed_def)
  next
    fix a s s'
    assume "items_ok e ids flt s \<and> result_ok e ids flt s" "step e ids flt a s = Some s'"
    then show "items_ok e ids flt s' \<and> result_ok e ids flt s'"
      using step_items_ok step_result_ok by blast
  qed
  then show ?thesis ..
qed

text \<open>
  A send on a closed channel would panic. It cannot happen: the channel is closed after
  \<open>g.Wait\<close> has returned, when no task is left.
\<close>

lemma step_closed:
  assumes "step e ids flt a s = Some s'" "processed_closed s \<longrightarrow> pc s \<noteq> Spawning"
  shows "processed_closed s' \<longrightarrow> pc s' \<noteq> Spawning"
  using assms(1) by (cases rule: step_cases) (use assms(2) in auto)

lemma no_task_after_close:
  assumes "run e ids flt sched (init ids) = Some s" "processed_closed s"
  shows "tasks s = []"
proof -
  have "processed_closed s \<longrightarrow> pc s \<noteq> Spawning"
  proof (rule run_invariant [where P = "\<lambda>s. processed_closed s \<longrightarrow> pc s \<noteq> Spawning", OF _ _ assms(1)])
    show "processed_closed (init ids) \<longrightarrow> pc (init ids) \<noteq> Spawning"
      by (simp add: init_def)
  next
    fix a s s'
    assume "processed_closed s \<longrightarrow> pc s \<noteq> Spawning" "step e ids flt a s = Some s'"
    then show "processed_closed s' \<longrightarrow> pc s' \<noteq> Spawning"
      using step_closed by blast
  qed
  with assms(2) run_result_ok [OF assms(1)] show ?thesis
    by (simp add: result_ok_def)
qed

subsection \<open>The error of a call is the first one a task returned\<close>

lemma step_group_err:
  assumes "step e ids flt a s = Some s'"
  shows "group_err s' = (case group_err s of Some x \<Rightarrow> Some x | None \<Rightarrow> first_failure e [a])"
  using assms by (cases rule: step_cases) (auto simp: first_failure_def split: option.splits)

lemma first_failure_Cons:
  "first_failure e (a # as) = (case first_failure e [a] of Some x \<Rightarrow> Some x | None \<Rightarrow> first_failure e as)"
  by (cases a) (auto simp: first_failure_def split: sum.splits list.splits)

lemma run_group_err:
  "run e ids flt sched s = Some s' \<Longrightarrow>
   group_err s' = (case group_err s of Some x \<Rightarrow> Some x | None \<Rightarrow> first_failure e sched)"
proof (induction sched arbitrary: s)
  case Nil
  then show ?case by (simp add: first_failure_def split: option.splits)
next
  case (Cons a as)
  from Cons.prems obtain s1 where s1: "step e ids flt a s = Some s1" "run e ids flt as s1 = Some s'"
    by (auto split: option.splits)
  from Cons.IH[OF s1(2)] step_group_err[OF s1(1)] show ?case
    by (simp add: first_failure_Cons[of e a as] split: option.splits)
qed

lemma result_first_failure:
  assumes "List e ids flt sched = Some (r, err)"
  shows "err = first_failure e sched \<and> (r = None \<longleftrightarrow> err \<noteq> None)"
proof -
  from assms obtain s where s: "run e ids flt sched (init ids) = Some s" "pc s = Returned (r, err)"
    by (auto simp: List_def split: option.splits pc.splits)
  from run_result_ok[OF s(1)] s(2) have "err = group_err s" "r = None \<longleftrightarrow> err \<noteq> None"
    by (cases r; auto simp: result_ok_def)+
  moreover from run_group_err[OF s(1)] have "group_err s = first_failure e sched"
    by (simp add: init_def)
  ultimately show ?thesis by simp
qed

subsection \<open>A failing fetch makes the call fail\<close>

lemma in_set_remove1_other: "y \<in> set xs \<Longrightarrow> y \<noteq> x \<Longrightarrow> y \<in> set (remove1 x xs)"
  by simp

lemma pending_after_ok:
  assumes "pending_ok e ids s" "Get e k = Inr item" "todo s' = todo s" "group_err s' = group_err s"
    "set (remove1 (Fetching k) (tasks s)) \<subseteq> set (tasks s')"
  shows "pending_ok e ids s'"
  unfolding pending_ok_def
proof (intro impI ballI)
  fix k' assume g: "group_err s' = None" and k': "k' \<in> set ids" "\<exists>err. Get e k' = Inl err"
  from k'(2) assms(2) have ne: "Fetching k' \<noteq> Fetching k" by auto
  from assms(1,4) g k' have "k' \<in> set (todo s) \<or> Fetching k' \<in> set (tasks s)"
    by (auto simp: pending_ok_def)
  then show "k' \<in> set (todo s') \<or> Fetching k' \<in> set (tasks s')"
    using ne assms(3,5) in_set_remove1_other by fastforce
qed

lemma step_pending_ok:
  assumes "step e ids flt a s = Some s'" "pending_ok e ids s"
  shows "pending_ok e ids s'"
  using assms(1)
proof (cases rule: step_cases)
  case (GetFwd k item)
  show ?thesis
    by (rule pending_after_ok[OF assms(2) GetFwd(3)]) (use GetFwd(5) in auto)
next
  case (GetDrop k item)
  show ?thesis
    by (rule pending_after_ok[OF assms(2) GetDrop(3)]) (use GetDrop(5) in auto)
qed (use assms(2) in \<open>auto simp: pending_ok_def\<close>)

lemma run_pending_ok:
  assumes "run e ids flt sched (init ids) = Some s"
  shows "pending_ok e ids s"
proof (rule run_invariant[where P = "pending_ok e ids", OF _ _ assms])
  show "pending_ok e ids (init ids)"
    by (simp add: init_def pending_ok_def)
qed (rule step_pending_ok)

lemma failing_id_result:
  assumes "List e ids flt sched = Some (r, err)" "k \<in> set ids" "Get e k = Inl x"
  shows "r = None \<and> err \<noteq> None \<and> err = first_failure e sched"
proof -
  from assms(1) obtain s where s: "run e ids flt sched (init ids) = Some s" "pc s = Returned (r, err)"
    by (auto simp: List_def split: option.splits pc.splits)
  from run_result_ok[OF s(1)] s(2) have shape: "todo s = []" "tasks s = []"
    by (auto simp: result_ok_def)
  from run_result_ok[OF s(1)] s(2) have "err = group_err s"
    by (cases r; auto simp: result_ok_def)
  moreover have "group_err s \<noteq> None"
    using run_pending_ok[OF s(1)] shape assms(2,3) by (auto simp: pending_ok_def)
  ultimately show ?thesis using result_first_failure[OF assms(1)] by simp
qed

subsection \<open>When the only failure upstream is not-found\<close>

lemma step_nf_ok:
  assumes "step e ids flt a s = Some s'" "a \<noteq> CallerCancel"
    "\<forall>k\<in>set ids. \<forall>x. Get e k = Inl x \<longrightarrow> x = ErrNotFound"
    "items_ok e ids flt s" "result_ok e ids flt s" "nf_ok s"
  shows "nf_ok s'"
  using assms(1)
proof (cases rule: step_cases)
  case (GetErr k err)
  with assms(3,4) have "err = ErrNotFound" by (auto simp: items_ok_def)
  with GetErr assms(6) show ?thesis by (auto simp: nf_ok_def)
next
  case (GetCanceled k)
  with assms(5) have "pc s = Spawning" by (auto simp: result_ok_def)
  with GetCanceled assms(6) show ?thesis by (auto simp: nf_ok_def)
qed (use assms(2,6) in \<open>auto simp: nf_ok_def\<close>)

lemma step_nfc_ok:
  assumes "step e ids flt a s = Some s'"
    "\<forall>k\<in>set ids. \<forall>x. Get e k = Inl x \<longrightarrow> x = ErrNotFound"
    "items_ok e ids flt s" "nfc_ok s"
  shows "nfc_ok s'"
  using assms(1)
proof (cases rule: step_cases)
  case (GetErr k err)
  with assms(2,3) have "err = ErrNotFound" by (auto simp: items_ok_def)
  with GetErr assms(4) show ?thesis by (auto simp: nfc_ok_def)
qed (use assms(4) in \<open>auto simp: nfc_ok_def\<close>)

lemma run_nfc_ok:
  assumes "run e ids flt sched (init ids) = Some s"
    "\<forall>k\<in>set ids. \<forall>x. Get e k = Inl x \<longrightarrow> x = ErrNotFound"
  shows "nfc_ok s"
proof -
  have "items_ok e ids flt s \<and> nfc_ok s"
  proof (rule run_invariant[where P = "\<lambda>s. items_ok e ids flt s \<and> nfc_ok s", OF _ _ assms(1)])
    show "items_ok e ids flt (init ids) \<and> nfc_ok (init ids)"
      by (simp add: init_def items_ok_def keyed_def nfc_ok_def)
  next
    fix a s s'
    assume "items_ok e ids flt s \<and> nfc_ok s" "step e ids flt a s = Some s'"
    then show "items_ok e ids flt s' \<and> nfc_ok s'"
      using step_items_ok step_nfc_ok[OF _ assms(2)] by blast
  qed
  then show ?thesis ..
qed

lemma run_nf_ok:
  assumes "run e ids flt sched (init ids) = Some s"
    "\<forall>k\<in>set ids. \<forall>x. Get e k = Inl x \<longrightarrow> x = ErrNotFound"
    "CallerCancel \<notin> set sched"
  shows "nf_ok s"
proof -
  let ?P = "\<lambda>s. items_ok e ids flt s \<and> result_ok e ids flt s \<and> nf_ok s"
  have "?P s"
  proof (rule run_invariant_on[where P = ?P, OF assms(1)])
    show "?P (init ids)"
      using init_result_ok by (simp add: init_def items_ok_def keyed_def nf_ok_def)
  next
    show "\<forall>a\<in>set sched. \<forall>s s'. ?P s \<longrightarrow> step e ids flt a s = Some s' \<longrightarrow> ?P s'"
    proof (intro ballI allI impI)
      fix a s s'
      assume a: "a \<in> set sched" and P: "?P s" and st: "step e ids flt a s = Some s'"
      from a assms(3) have ne: "a \<noteq> CallerCancel" by auto
      from P st show "?P s'"
        using step_items_ok step_result_ok step_nf_ok[OF st ne assms(2)] by blast
    qed
  qed
  then show ?thesis by simp
qed

lemma not_found_result:
  assumes "List e ids flt sched = Some (r, err)"
    "\<exists>k\<in>set ids. Get e k = Inl ErrNotFound"
    "\<forall>k\<in>set ids. Get e k = Inl ErrNotFound \<or> (\<exists>item. Get e k = Inr item)"
  shows "r = None
    \<and> (err = Some ErrNotFound \<or> err = Some ContextCanceled)
    \<and> (CallerCancel \<notin> set sched \<longrightarrow> err = Some ErrNotFound)"
proof -
  from assms(1) obtain s where s: "run e ids flt sched (init ids) = Some s" "pc s = Returned (r, err)"
    by (auto simp: List_def split: option.splits pc.splits)
  from assms(2) obtain k where k: "k \<in> set ids" "Get e k = Inl ErrNotFound" by blast
  from failing_id_result[OF assms(1) k] have r: "r = None" "err \<noteq> None" by blast+
  from run_result_ok[OF s(1)] s(2) r have eq: "err = group_err s"
    by (auto simp: result_ok_def)
  have only: "\<forall>k\<in>set ids. \<forall>x. Get e k = Inl x \<longrightarrow> x = ErrNotFound"
    using assms(3) by fastforce
  from run_nfc_ok[OF s(1) only] eq r have 1: "err = Some ErrNotFound \<or> err = Some ContextCanceled"
    by (auto simp: nfc_ok_def)
  have 2: "CallerCancel \<notin> set sched \<longrightarrow> err = Some ErrNotFound"
    using run_nf_ok[OF s(1) only] eq r by (auto simp: nf_ok_def)
  from r 1 2 show ?thesis by simp
qed

subsection \<open>The records of the output\<close>

lemma output_items:
  assumes "List e ids flt sched = Some (Some out, err)"
  shows "err = None
    \<and> (\<forall>item\<in>set out. ID item \<in> set ids \<and> (\<exists>k\<in>set ids. Get e k = Inr item) \<and> forwards flt item)
    \<and> map ID out = filter (\<lambda>k. k \<in> ID ` set out) ids"
proof -
  from assms(1) obtain s where s: "run e ids flt sched (init ids) = Some s" "pc s = Returned (Some out, err)"
    by (auto simp: List_def split: option.splits pc.splits)
  from run_result_ok[OF s(1)] s(2) obtain m where
    m: "err = None" "keyed e ids flt m" "out = collect ids m"
    by (auto simp: result_ok_def)
  have key: "\<forall>k item. m k = Some item \<longrightarrow> ID item = k"
    using m(2) by (simp add: keyed_def)
  have "\<forall>item\<in>set out. ID item \<in> set ids \<and> (\<exists>k\<in>set ids. Get e k = Inr item) \<and> forwards flt item"
  proof
    fix item assume "item \<in> set out"
    with m(3) obtain k where "k \<in> set ids" "m k = Some item" using collect_mem by blast
    with m(2) show "ID item \<in> set ids \<and> (\<exists>k\<in>set ids. Get e k = Inr item) \<and> forwards flt item"
      unfolding keyed_def accepted_def by blast
  qed
  moreover have "map ID out = filter (\<lambda>k. k \<in> ID ` set out) ids"
    unfolding m(3) by (rule collect_IDs_out[OF key])
  ultimately show ?thesis using m(1) by simp
qed

subsection \<open>Negative and zero limits\<close>

lemma step_unlimited:
  assumes "maxWorkers e < 0" "maxWorkers e' < 0" "Get e' = Get e"
  shows "step e' ids flt a s = step e ids flt a s"
  using assms by (cases a) (simp_all split: list.splits)

lemma run_unlimited:
  assumes "maxWorkers e < 0" "maxWorkers e' < 0" "Get e' = Get e"
  shows "run e' ids flt sched s = run e ids flt sched s"
  by (induction sched arbitrary: s) (simp_all add: step_unlimited[OF assms] split: option.splits)

lemma run_all_Go:
  "maxWorkers e < 0 \<Longrightarrow> pc s = Spawning \<Longrightarrow>
   run e ids flt (replicate (length (todo s)) Go) s =
     Some (s\<lparr>todo := [], tasks := tasks s @ map Fetching (todo s)\<rparr>)"
proof (induction "todo s" arbitrary: s)
  case Nil
  then show ?case by simp
next
  case (Cons k rest)
  let ?s1 = "s\<lparr>todo := rest, tasks := tasks s @ [Fetching k]\<rparr>"
  have st: "step e ids flt Go s = Some ?s1"
    using Cons.prems Cons.hyps(2)[symmetric] by simp
  have "run e ids flt (replicate (length (todo ?s1)) Go) ?s1 =
        Some (?s1\<lparr>todo := [], tasks := tasks ?s1 @ map Fetching (todo ?s1)\<rparr>)"
    by (rule Cons.hyps(1)) (use Cons.prems in simp_all)
  then show ?case using st Cons.hyps(2)[symmetric] by simp
qed

lemma step_zero_workers:
  assumes "step e ids flt a s = Some s'" "maxWorkers e = 0"
    "pc s = Spawning \<and> todo s \<noteq> [] \<and> tasks s = []"
  shows "pc s' = Spawning \<and> todo s' \<noteq> [] \<and> tasks s' = []"
  using assms(1) by (cases rule: step_cases) (use assms(2,3) in auto)

lemma zero_workers_never_return:
  assumes "maxWorkers e = 0" "ids \<noteq> []"
  shows "List e ids flt sched = None"
proof (cases "run e ids flt sched (init ids)")
  case None
  then show ?thesis by (simp add: List_def)
next
  case (Some s)
  have "pc s = Spawning \<and> todo s \<noteq> [] \<and> tasks s = []"
  proof (rule run_invariant[where P = "\<lambda>s. pc s = Spawning \<and> todo s \<noteq> [] \<and> tasks s = []", OF _ _ Some])
    show "pc (init ids) = Spawning \<and> todo (init ids) \<noteq> [] \<and> tasks (init ids) = []"
      using assms(2) by (simp add: init_def)
  next
    fix a s s'
    assume "pc s = Spawning \<and> todo s \<noteq> [] \<and> tasks s = []" "step e ids flt a s = Some s'"
    then show "pc s' = Spawning \<and> todo s' \<noteq> [] \<and> tasks s' = []"
      using step_zero_workers[OF _ assms(1)] by blast
  qed
  with Some show ?thesis by (simp add: List_def)
qed

subsection \<open>States from which the call cannot return\<close>

lemma step_stuck:
  assumes "step e ids flt a s = Some s'" "stuck s"
  shows "stuck s'"
  using assms(1) by (cases rule: step_cases) (use assms(2) in \<open>auto simp: stuck_def\<close>)

lemma run_stuck:
  assumes "run e ids flt sched s = Some s'" "stuck s"
  shows "stuck s'"
  by (rule run_invariant[where P = stuck, OF _ assms(2) assms(1)]) (rule step_stuck)

subsection \<open>Runs in which the collector ends on the closed channel\<close>

lemma drain_okI:
  assumes "wait_closed s' \<longrightarrow> processed s' = [] \<and> pc s' \<noteq> Spawning"
    "processed_closed s' \<longrightarrow> pc s' \<noteq> Spawning"
    "\<And>k item. group_err s' = None \<Longrightarrow> k \<in> set ids \<Longrightarrow> Get e k = Inr item \<Longrightarrow> forwards flt item
       \<Longrightarrow> placed s' k item"
  shows "drain_ok e ids flt s'"
  using assms unfolding drain_ok_def by blast

lemma drain_okD:
  assumes "drain_ok e ids flt s" "group_err s = None" "k \<in> set ids" "Get e k = Inr item" "forwards flt item"
  shows "placed s k item"
  using assms unfolding drain_ok_def by blast

lemma step_drain_ok:
  assumes st: "step e ids flt a s = Some s'" and nd: "a \<noteq> SeeDone"
    and cons: "\<forall>k\<in>set ids. \<forall>item. Get e k = Inr item \<longrightarrow> ID item = k"
    and io: "items_ok e ids flt s" and ro: "result_ok e ids flt s" and d: "drain_ok e ids flt s"
  shows "drain_ok e ids flt s'"
  using st
proof (cases rule: step_cases)
  case (Go k0 rest)
  show ?thesis
  proof (rule drain_okI)
    fix k item assume "group_err s' = None" "k \<in> set ids" "Get e k = Inr item" "forwards flt item"
    with drain_okD[OF d] Go have "placed s k item" by simp
    with Go show "placed s' k item" by (auto simp: placed_def)
  qed (use d Go in \<open>auto simp: drain_ok_def\<close>)
next
  case (GetErr k0 err)
  then show ?thesis using d ro by (auto simp: drain_ok_def result_ok_def)
next
  case (GetCanceled k0)
  then show ?thesis using d ro by (auto simp: drain_ok_def result_ok_def)
next
  case (GetFwd k0 item0)
  show ?thesis
  proof (rule drain_okI)
    fix k item assume a: "group_err s' = None" "k \<in> set ids" "Get e k = Inr item" "forwards flt item"
    with drain_okD[OF d] GetFwd have p: "placed s k item" by simp
    show "placed s' k item"
    proof (cases "k = k0")
      case True
      with a(3) GetFwd(3) have "item = item0" by simp
      with GetFwd(5) show ?thesis by (simp add: placed_def)
    next
      case False
      with p GetFwd(5) show ?thesis by (auto simp: placed_def)
    qed
  qed (use d ro GetFwd in \<open>auto simp: drain_ok_def result_ok_def\<close>)
next
  case (GetDrop k0 item0)
  show ?thesis
  proof (rule drain_okI)
    fix k item assume a: "group_err s' = None" "k \<in> set ids" "Get e k = Inr item" "forwards flt item"
    with drain_okD[OF d] GetDrop have p: "placed s k item" by simp
    from a(3,4) GetDrop(3,4) have "k \<noteq> k0" by auto
    with p GetDrop(5) show "placed s' k item" by (auto simp: placed_def)
  qed (use d ro GetDrop in \<open>auto simp: drain_ok_def result_ok_def\<close>)
next
  case (Send item0)
  show ?thesis
  proof (rule drain_okI)
    fix k item assume a: "group_err s' = None" "k \<in> set ids" "Get e k = Inr item" "forwards flt item"
    with drain_okD[OF d] Send have p: "placed s k item" by simp
    show "placed s' k item"
    proof (cases "item = item0")
      case True
      with Send(4) show ?thesis by (simp add: placed_def)
    next
      case False
      with p Send(4) show ?thesis by (auto simp: placed_def)
    qed
  qed (use d ro Send in \<open>auto simp: drain_ok_def result_ok_def\<close>)
next
  case (Receive item0 rest)
  show ?thesis
  proof (rule drain_okI)
    fix k item assume a: "group_err s' = None" "k \<in> set ids" "Get e k = Inr item" "forwards flt item"
    with drain_okD[OF d] Receive have p: "placed s k item" by simp
    from a(2,3) cons have idk: "ID item = k" by blast
    from io Receive(2) have "accepted e ids flt item0" by (simp add: items_ok_def)
    then obtain k' where k': "k' \<in> set ids" "Get e k' = Inr item0" by (auto simp: accepted_def)
    with cons have idk': "ID item0 = k'" by blast
    show "placed s' k item"
    proof (cases "ID item0 = k")
      case True
      with idk' k'(2) a(3) have "item0 = item" by simp
      with Receive(4) True show ?thesis by (simp add: placed_def)
    next
      case False
      with idk have "item \<noteq> item0" by auto
      with p Receive(2,4) False show ?thesis by (auto simp: placed_def)
    qed
  qed (use d Receive in \<open>auto simp: drain_ok_def\<close>)
next
  case SeeDone
  with nd show ?thesis by simp
qed (use d in \<open>auto simp: drain_ok_def placed_def\<close>)

lemma forwards_iff: "forwards flt item \<longleftrightarrow> flt = None \<or> (the flt) item"
  by (auto simp: forwards_def)

lemma step_final_ok:
  assumes "step e ids flt a s = Some s'" "final_ok ids s"
  shows "final_ok ids s'"
  using assms(1)
proof (cases rule: step_cases)
  case (Receive item rest)
  show ?thesis
  proof (cases "ids = []")
    case True
    with assms(2) Receive show ?thesis by (auto simp: final_ok_def)
  next
    case False
    with assms(2) Receive show ?thesis by (auto simp: final_ok_def)
  qed
qed (use assms(2) in \<open>auto simp: final_ok_def\<close>)

lemma run_final_ok:
  assumes "run e ids flt sched (init ids) = Some s"
  shows "final_ok ids s"
proof (rule run_invariant[where P = "final_ok ids", OF _ _ assms])
  show "final_ok ids (init ids)"
    by (auto simp: init_def final_ok_def)
qed (rule step_final_ok)

lemma run_drain_ok:
  assumes "run e ids flt sched (init ids) = Some s"
    "SeeDone \<notin> set sched"
    "\<forall>k\<in>set ids. \<forall>item. Get e k = Inr item \<longrightarrow> ID item = k"
  shows "drain_ok e ids flt s"
proof -
  let ?P = "\<lambda>s. items_ok e ids flt s \<and> result_ok e ids flt s \<and> drain_ok e ids flt s"
  have "?P s"
  proof (rule run_invariant_on[where P = ?P, OF assms(1)])
    show "?P (init ids)"
      using init_result_ok
      by (simp add: init_def items_ok_def keyed_def drain_ok_def placed_def)
  next
    show "\<forall>a\<in>set sched. \<forall>s s'. ?P s \<longrightarrow> step e ids flt a s = Some s' \<longrightarrow> ?P s'"
    proof (intro ballI allI impI)
      fix a s s'
      assume a: "a \<in> set sched" and P: "?P s" and st: "step e ids flt a s = Some s'"
      from a assms(2) have ne: "a \<noteq> SeeDone" by auto
      from P st show "?P s'"
        using step_items_ok step_result_ok step_drain_ok[OF st ne assms(3)] by blast
    qed
  qed
  then show ?thesis by simp
qed

lemma collect_pointwise:
  "\<forall>k\<in>set ks. m k = f k \<Longrightarrow>
   collect ks m = concat (map (\<lambda>k. case f k of Some i \<Rightarrow> [i] | None \<Rightarrow> []) ks)"
  by (induction ks) (auto split: option.splits)

lemma List_drained:
  assumes "List e ids flt sched = Some (Some out, err)"
    "SeeDone \<notin> set sched"
    "\<forall>k\<in>set ids. \<forall>item. Get e k = Inr item \<longrightarrow> ID item = k"
  shows "out = spec_retrieve e ids flt \<and> err = None"
proof -
  from assms(1) obtain s where s: "run e ids flt sched (init ids) = Some s" "pc s = Returned (Some out, err)"
    by (auto simp: List_def split: option.splits pc.splits)
  from run_result_ok[OF s(1)] s(2) have r: "todo s = []" "tasks s = []" "group_err s = None" "err = None"
    by (auto simp: result_ok_def)
  from run_final_ok[OF s(1)] s(2) have f: "out = collect ids (itemsMap s)" "ids \<noteq> [] \<longrightarrow> wait_closed s"
    by (auto simp: final_ok_def)
  from run_items_ok[OF s(1)] have key: "keyed e ids flt (itemsMap s)"
    by (simp add: items_ok_def)
  have d: "drain_ok e ids flt s" by (rule run_drain_ok[OF s(1) assms(2,3)])
  let ?f = "\<lambda>k. case Get e k of Inl _ \<Rightarrow> None
                 | Inr item \<Rightarrow> if flt = None \<or> (the flt) item then Some item else None"
  have pt: "\<forall>k\<in>set ids. itemsMap s k = ?f k"
  proof
    fix k assume k: "k \<in> set ids"
    then have wc: "wait_closed s" using f(2) by auto
    with d have pe: "processed s = []" by (simp add: drain_ok_def)
    show "itemsMap s k = ?f k"
    proof (cases "itemsMap s k")
      case None
      have "?f k = None"
      proof (cases "Get e k")
        case (Inl x)
        then show ?thesis by simp
      next
        case (Inr item)
        show ?thesis
        proof (cases "forwards flt item")
          case True
          from drain_okD[OF d r(3) k Inr True] r pe None show ?thesis
            by (simp add: placed_def)
        next
          case False
          with Inr show ?thesis by (simp add: forwards_iff)
        qed
      qed
      with None show ?thesis by simp
    next
      case (Some item)
      with key have i: "ID item = k" "accepted e ids flt item" by (auto simp: keyed_def)
      then obtain k' where k': "k' \<in> set ids" "Get e k' = Inr item" "forwards flt item"
        by (auto simp: accepted_def)
      with assms(3) i(1) have "k' = k" by auto
      with k' Some show ?thesis by (simp add: forwards_iff)
    qed
  qed
  have "collect ids (itemsMap s) = spec_retrieve e ids flt"
    unfolding spec_retrieve_def collect_pointwise[OF pt]
    by (rule arg_cong[where f = concat], rule map_cong[OF refl]) (auto split: sum.splits)
  with f(1) r(4) show ?thesis by simp
qed

subsection \<open>The identifiers of the output when the collector ends on the closed channel\<close>

lemma cover_okI:
  assumes "wait_closed s' \<longrightarrow> processed s' = [] \<and> pc s' \<noteq> Spawning"
    "processed_closed s' \<longrightarrow> pc s' \<noteq> Spawning"
    "\<And>k item. group_err s' = None \<Longrightarrow> k \<in> set ids \<Longrightarrow> Get e k = Inr item \<Longrightarrow> forwards flt item
       \<Longrightarrow> reached s' k item"
  shows "cover_ok e ids flt s'"
  using assms unfolding cover_ok_def by blast

lemma cover_okD:
  assumes "cover_ok e ids flt s" "group_err s = None" "k \<in> set ids" "Get e k = Inr item" "forwards flt item"
  shows "reached s k item"
  using assms unfolding cover_ok_def by blast

lemma step_cover_ok:
  assumes st: "step e ids flt a s = Some s'" and nd: "a \<noteq> SeeDone"
    and ro: "result_ok e ids flt s" and d: "cover_ok e ids flt s"
  shows "cover_ok e ids flt s'"
  using st
proof (cases rule: step_cases)
  case (Go k0 rest)
  show ?thesis
  proof (rule cover_okI)
    fix k item assume "group_err s' = None" "k \<in> set ids" "Get e k = Inr item" "forwards flt item"
    with cover_okD[OF d] Go have "reached s k item" by simp
    with Go show "reached s' k item" by (auto simp: reached_def)
  qed (use d Go in \<open>auto simp: cover_ok_def\<close>)
next
  case (GetErr k0 err)
  then show ?thesis using d ro by (auto simp: cover_ok_def result_ok_def)
next
  case (GetCanceled k0)
  then show ?thesis using d ro by (auto simp: cover_ok_def result_ok_def)
next
  case (GetFwd k0 item0)
  show ?thesis
  proof (rule cover_okI)
    fix k item assume a: "group_err s' = None" "k \<in> set ids" "Get e k = Inr item" "forwards flt item"
    with cover_okD[OF d] GetFwd have p: "reached s k item" by simp
    show "reached s' k item"
    proof (cases "k = k0")
      case True
      with a(3) GetFwd(3) have "item = item0" by simp
      with GetFwd(5) show ?thesis by (simp add: reached_def)
    next
      case False
      with p GetFwd(5) show ?thesis by (auto simp: reached_def)
    qed
  qed (use d ro GetFwd in \<open>auto simp: cover_ok_def result_ok_def\<close>)
next
  case (GetDrop k0 item0)
  show ?thesis
  proof (rule cover_okI)
    fix k item assume a: "group_err s' = None" "k \<in> set ids" "Get e k = Inr item" "forwards flt item"
    with cover_okD[OF d] GetDrop have p: "reached s k item" by simp
    from a(3,4) GetDrop(3,4) have "k \<noteq> k0" by auto
    with p GetDrop(5) show "reached s' k item" by (auto simp: reached_def)
  qed (use d ro GetDrop in \<open>auto simp: cover_ok_def result_ok_def\<close>)
next
  case (Send item0)
  show ?thesis
  proof (rule cover_okI)
    fix k item assume a: "group_err s' = None" "k \<in> set ids" "Get e k = Inr item" "forwards flt item"
    with cover_okD[OF d] Send have p: "reached s k item" by simp
    show "reached s' k item"
    proof (cases "item = item0")
      case True
      with Send(4) show ?thesis by (simp add: reached_def)
    next
      case False
      with p Send(4) show ?thesis by (auto simp: reached_def)
    qed
  qed (use d ro Send in \<open>auto simp: cover_ok_def result_ok_def\<close>)
next
  case (Receive item0 rest)
  show ?thesis
  proof (rule cover_okI)
    fix k item assume a: "group_err s' = None" "k \<in> set ids" "Get e k = Inr item" "forwards flt item"
    with cover_okD[OF d] Receive have p: "reached s k item" by simp
    with Receive(2,4) show "reached s' k item" by (auto simp: reached_def)
  qed (use d Receive in \<open>auto simp: cover_ok_def\<close>)
next
  case SeeDone
  with nd show ?thesis by simp
qed (use d in \<open>auto simp: cover_ok_def reached_def\<close>)

lemma run_cover_ok:
  assumes "run e ids flt sched (init ids) = Some s" "SeeDone \<notin> set sched"
  shows "cover_ok e ids flt s"
proof -
  let ?P = "\<lambda>s. items_ok e ids flt s \<and> result_ok e ids flt s \<and> cover_ok e ids flt s"
  have "?P s"
  proof (rule run_invariant_on[where P = ?P, OF assms(1)])
    show "?P (init ids)"
      using init_result_ok
      by (simp add: init_def items_ok_def keyed_def cover_ok_def reached_def)
  next
    show "\<forall>a\<in>set sched. \<forall>s s'. ?P s \<longrightarrow> step e ids flt a s = Some s' \<longrightarrow> ?P s'"
    proof (intro ballI allI impI)
      fix a s s'
      assume a: "a \<in> set sched" and P: "?P s" and st: "step e ids flt a s = Some s'"
      from a assms(2) have ne: "a \<noteq> SeeDone" by auto
      from P st show "?P s'"
        using step_items_ok step_result_ok step_cover_ok[OF st ne] by blast
    qed
  qed
  then show ?thesis by simp
qed

lemma output_ids_drained:
  assumes "List e ids flt sched = Some (Some out, err)" "SeeDone \<notin> set sched"
  shows "map ID out =
     filter (\<lambda>k. \<exists>k'\<in>set ids. \<exists>item. Get e k' = Inr item \<and> forwards flt item \<and> ID item = k) ids"
proof -
  from assms(1) obtain s where s: "run e ids flt sched (init ids) = Some s" "pc s = Returned (Some out, err)"
    by (auto simp: List_def split: option.splits pc.splits)
  from run_result_ok[OF s(1)] s(2) have r: "todo s = []" "tasks s = []" "group_err s = None"
    by (auto simp: result_ok_def)
  from run_final_ok[OF s(1)] s(2) have f: "out = collect ids (itemsMap s)" "ids \<noteq> [] \<longrightarrow> wait_closed s"
    by (auto simp: final_ok_def)
  from run_items_ok[OF s(1)] have key: "keyed e ids flt (itemsMap s)"
    by (simp add: items_ok_def)
  then have idk: "\<forall>k item. itemsMap s k = Some item \<longrightarrow> ID item = k"
    by (simp add: keyed_def)
  have d: "cover_ok e ids flt s" by (rule run_cover_ok[OF s(1) assms(2)])
  have "filter (\<lambda>k. k \<in> dom (itemsMap s)) ids =
     filter (\<lambda>k. \<exists>k'\<in>set ids. \<exists>item. Get e k' = Inr item \<and> forwards flt item \<and> ID item = k) ids"
  proof (rule filter_cong[OF refl])
    fix k assume k: "k \<in> set ids"
    then have "wait_closed s" using f(2) by auto
    with d have pe: "processed s = []" by (simp add: cover_ok_def)
    show "(k \<in> dom (itemsMap s)) =
       (\<exists>k'\<in>set ids. \<exists>item. Get e k' = Inr item \<and> forwards flt item \<and> ID item = k)"
    proof
      assume "k \<in> dom (itemsMap s)"
      then obtain item where "itemsMap s k = Some item" by blast
      with key have "ID item = k" "accepted e ids flt item" by (auto simp: keyed_def)
      then show "\<exists>k'\<in>set ids. \<exists>item. Get e k' = Inr item \<and> forwards flt item \<and> ID item = k"
        by (auto simp: accepted_def)
    next
      assume "\<exists>k'\<in>set ids. \<exists>item. Get e k' = Inr item \<and> forwards flt item \<and> ID item = k"
      then obtain k' item where i: "k' \<in> set ids" "Get e k' = Inr item" "forwards flt item" "ID item = k"
        by blast
      from cover_okD[OF d r(3) i(1,2,3)] r pe have "ID item \<in> dom (itemsMap s)"
        by (simp add: reached_def)
      with i(4) show "k \<in> dom (itemsMap s)" by simp
    qed
  qed
  with collect_IDs[OF idk, of ids] f(1) show ?thesis by simp
qed

subsection \<open>The sequential schedule returns\<close>

lemma seq_one:
  assumes "maxWorkers e \<noteq> 0" "idle s" "todo s = k # ks"
  shows "\<exists>s1. run e ids flt (seq_task e flt k) s = Some s1
          \<and> idle s1 \<and> todo s1 = ks
          \<and> (group_err s1 = None \<longleftrightarrow> group_err s = None \<and> \<not> isl (Get e k))"
proof -
  let ?s0 = "s\<lparr>todo := ks, tasks := [Fetching k]\<rparr>"
  have go: "step e ids flt Go s = Some ?s0"
    using assms by (auto simp: idle_def)
  show ?thesis
  proof (cases "Get e k")
    case (Inl err)
    then show ?thesis using go assms(2)
      by (auto simp: seq_task_def idle_def task_returns_def)
  next
    case (Inr item)
    show ?thesis
    proof (cases "forwards flt item")
      case True
      then show ?thesis using go assms(2) Inr
        by (auto simp: seq_task_def idle_def task_returns_def capacity_def)
    next
      case False
      then show ?thesis using go assms(2) Inr
        by (auto simp: seq_task_def idle_def task_returns_def)
    qed
  qed
qed

lemma seq_body_runs:
  assumes "maxWorkers e \<noteq> 0"
  shows "idle s \<Longrightarrow> todo s = ks \<Longrightarrow>
     \<exists>s'. run e ids flt (seq_body e flt ks) s = Some s' \<and> idle s' \<and> todo s' = []
          \<and> (group_err s' = None \<longleftrightarrow> group_err s = None \<and> (\<forall>k\<in>set ks. \<not> isl (Get e k)))"
proof (induction ks arbitrary: s)
  case Nil
  then show ?case by simp
next
  case (Cons k ks)
  have "\<exists>s1. run e ids flt (seq_task e flt k) s = Some s1 \<and> idle s1 \<and> todo s1 = ks
          \<and> (group_err s1 = None \<longleftrightarrow> group_err s = None \<and> \<not> isl (Get e k))"
    by (rule seq_one[OF assms Cons.prems])
  then obtain s1 where
    s1: "run e ids flt (seq_task e flt k) s = Some s1 \<and> idle s1 \<and> todo s1 = ks
          \<and> (group_err s1 = None \<longleftrightarrow> group_err s = None \<and> \<not> isl (Get e k))" ..
  then have i1: "idle s1" and t1: "todo s1 = ks" by simp_all
  have "\<exists>s'. run e ids flt (seq_body e flt ks) s1 = Some s' \<and> idle s' \<and> todo s' = []
          \<and> (group_err s' = None \<longleftrightarrow> group_err s1 = None \<and> (\<forall>k\<in>set ks. \<not> isl (Get e k)))"
    by (rule Cons.IH[OF i1 t1])
  then obtain s' where
    s': "run e ids flt (seq_body e flt ks) s1 = Some s' \<and> idle s' \<and> todo s' = []
          \<and> (group_err s' = None \<longleftrightarrow> group_err s1 = None \<and> (\<forall>k\<in>set ks. \<not> isl (Get e k)))" ..
  have r: "run e ids flt (seq_body e flt (k # ks)) s = Some s'"
    using s1 s' by (simp add: run_append)
  have g: "group_err s' = None \<longleftrightarrow> group_err s = None \<and> (\<forall>k\<in>set (k # ks). \<not> isl (Get e k))"
    using s1 s' by auto
  from s' have i: "idle s'" "todo s' = []" by simp_all
  show ?case
    by (rule exI[of _ s']) (intro conjI r i g)
qed

lemma List_can_return:
  assumes "maxWorkers e \<noteq> 0"
  shows "\<exists>r. List e ids flt (seq_sched e flt ids) = Some r"
proof (cases "ids = []")
  case True
  then show ?thesis by (simp add: List_def seq_sched_def init_def)
next
  case False
  have i: "idle (init ids)" "todo (init ids) = ids" and g: "group_err (init ids) = None"
    using False by (simp_all add: idle_def init_def)
  have "\<exists>s. run e ids flt (seq_body e flt ids) (init ids) = Some s \<and> idle s \<and> todo s = []
      \<and> (group_err s = None \<longleftrightarrow> group_err (init ids) = None \<and> (\<forall>k\<in>set ids. \<not> isl (Get e k)))"
    by (rule seq_body_runs[OF assms i])
  then obtain s where
    s: "run e ids flt (seq_body e flt ids) (init ids) = Some s \<and> idle s \<and> todo s = []
      \<and> (group_err s = None \<longleftrightarrow> group_err (init ids) = None \<and> (\<forall>k\<in>set ids. \<not> isl (Get e k)))" ..
  then have run: "run e ids flt (seq_body e flt ids) (init ids) = Some s"
    and idle: "pc s = Spawning" "tasks s = []" "processed s = []" "\<not> wait_closed s" "todo s = []"
    by (simp_all add: idle_def)
  show ?thesis
  proof (cases "\<exists>k\<in>set ids. isl (Get e k)")
    case True
    with s g have "group_err s \<noteq> None" by blast
    then obtain err where "group_err s = Some err" by blast
    with idle have "run e ids flt [Wait] s = Some (s\<lparr>ctx_done := True, pc := Returned (None, Some err)\<rparr>)"
      by simp
    with run True \<open>ids \<noteq> []\<close> show ?thesis
      by (simp add: List_def seq_sched_def run_append)
  next
    case False
    with s g have "group_err s = None" by blast
    with idle have "run e ids flt [Wait, Close, SeeClosed, Finish] s =
        Some (s\<lparr>ctx_done := True, processed_closed := True, wait_closed := True,
                pc := Returned (Some (collect ids (itemsMap s)), None)\<rparr>)"
      by simp
    with run False \<open>ids \<noteq> []\<close> show ?thesis
      by (simp add: List_def seq_sched_def run_append)
  qed
qed

lemma seq_body_no_SeeDone: "SeeDone \<notin> set (seq_body e flt ks)"
  by (induction ks) (auto simp: seq_task_def split: sum.splits)

lemma seq_sched_no_SeeDone: "SeeDone \<notin> set (seq_sched e flt ids)"
  by (simp add: seq_sched_def seq_body_no_SeeDone)

lemma seq_body_no_CallerCancel: "CallerCancel \<notin> set (seq_body e flt ks)"
  by (induction ks) (auto simp: seq_task_def split: sum.splits)

lemma seq_sched_no_CallerCancel: "CallerCancel \<notin> set (seq_sched e flt ids)"
  by (simp add: seq_sched_def seq_body_no_CallerCancel)

text \<open>
  In the runs where the collector never takes \<open>ctx.Done()\<close>, and every fetched record
  carries the identifier it was requested under, a returned list is what the
  specification asks for.
\<close>

lemma List_drained_example:
  "List (default_env mixed_types) [5, 6, 7] only_stories
     (seq_sched (default_env mixed_types) only_stories [5, 6, 7])
   = Some (Some [sample 5 ''story'', sample 7 ''story''], None)"
  by (simp add: List_def init_def default_env_def forwards_def task_returns_def capacity_def
      mixed_types_def only_stories_def StoryType_def seq_sched_def seq_task_def)

text \<open>
  With twelve identifiers of which the first fails, the call can reach a stuck state:
  eleven fetches succeed, the failure cancels the context, the collector ends on
  \<open>ctx.Done()\<close>, ten tasks fill the buffer and the eleventh blocks at its send. Whatever
  happens next, \<open>List\<close> does not return.
\<close>

lemma hang_prefix_stuck:
  "\<exists>s. run (default_env broken_1) twelve None hang_prefix (init twelve) = Some s \<and> stuck s"
  by (simp add: init_def default_env_def forwards_def task_returns_def capacity_def
      broken_1_def hang_prefix_def stuck_def twelve_def)

lemma List_can_hang:
  "List (default_env broken_1) twelve None (hang_prefix @ rest) = None"
proof -
  from hang_prefix_stuck obtain s where
    s: "run (default_env broken_1) twelve None hang_prefix (init twelve) = Some s" "stuck s"
    by blast
  show ?thesis
  proof (cases "run (default_env broken_1) twelve None rest s")
    case None
    with s(1) show ?thesis by (simp add: List_def run_append)
  next
    case (Some s')
    from run_stuck [OF Some s(2)] have "pc s' = Spawning" by (simp add: stuck_def)
    with Some s(1) show ?thesis by (simp add: List_def run_append)
  qed
qed

section \<open>The claims about List\<close>

lemmas eval_defs =
  List_def init_def default_env_def forwards_def task_returns_def capacity_def

lemma in_flight_le: "in_flight s \<le> length (tasks s)"
  by (simp add: in_flight_def)

text \<open>
  Claim C9. For every positive worker count \<open>W\<close> and every list of identifiers, in
  every state that any interleaving of \<open>List\<close> reaches, at most \<open>W\<close> task goroutines are
  active, and so at most \<open>W\<close> fetches are in flight.
\<close>

theorem List_respects_maxWorkers:
  assumes "0 < maxWorkers e" "run e ids flt sched (init ids) = Some s"
  shows "int (length (tasks s)) \<le> maxWorkers e \<and> int (in_flight s) \<le> maxWorkers e"
proof -
  have "int (length (tasks s)) \<le> maxWorkers e"
    by (rule run_cap [OF _ assms(2)]) (use assms(1) in simp)
  then show ?thesis using in_flight_le [of s] by simp
qed

text \<open>
  With two workers and ten identifiers: two tasks start, both fetches are in flight, and
  \<open>g.Go\<close> blocks for the third until one of them has returned.
\<close>

theorem List_respects_maxWorkers_witness:
  "0 < maxWorkers (SetMaxWorkers 2 (default_env all_stories))
   \<and> run (SetMaxWorkers 2 (default_env all_stories)) ten None [Go, Go] (init ten)
       = Some ((init ten)\<lparr>todo := [3, 4, 5, 6, 7, 8, 9, 10],
                           tasks := [Fetching 1, Fetching 2]\<rparr>)
   \<and> in_flight ((init ten)\<lparr>todo := [3, 4, 5, 6, 7, 8, 9, 10],
                           tasks := [Fetching 1, Fetching 2]\<rparr>) = 2
   \<and> run (SetMaxWorkers 2 (default_env all_stories)) ten None [Go, Go, Go] (init ten) = None
   \<and> run (SetMaxWorkers 2 (default_env all_stories)) ten None
        [Go, Go, GetReturns 1, Send (sample 1 ''story''), Go] (init ten)
       = Some ((init ten)\<lparr>todo := [4, 5, 6, 7, 8, 9, 10],
                           tasks := [Fetching 2, Fetching 3],
                           processed := [sample 1 ''story'']\<rparr>)"
  using List_respects_maxWorkers
    [of "SetMaxWorkers 2 (default_env all_stories)" ten None "[Go, Go]"
      "(init ten)\<lparr>todo := [3, 4, 5, 6, 7, 8, 9, 10], tasks := [Fetching 1, Fetching 2]\<rparr>"]
  by (simp add: eval_defs SetMaxWorkers_def all_stories_def ten_def in_flight_def)

text \<open>
  Claim C6, as the specification states it, fails for the count zero: after
  \<open>g.SetLimit(0)\<close> no task is ever started, so under a schedule that completes the
  retrieval when there is no limit, \<open>List\<close> with zero workers does not return.
\<close>

theorem List_zero_workers_blocks:
  "List (SetMaxWorkers 0 (default_env all_stories)) [1] None
     [Go, GetReturns 1, Send (sample 1 ''story''), Receive, Wait, Close, SeeClosed, Finish]
     = None
   \<and> step (SetMaxWorkers 0 (default_env all_stories)) [1] None Go (init [1]) = None
   \<and> List (default_env all_stories) [1] None
     [Go, GetReturns 1, Send (sample 1 ''story''), Receive, Wait, Close, SeeClosed, Finish]
     = Some (Some [sample 1 ''story''], None)"
  by (simp add: eval_defs all_stories_def SetMaxWorkers_def)

text \<open>
  Claim C6, amended. For every negative worker count (the default \<open>-1\<close> among them),
  \<open>List\<close> behaves as with no limit: under every schedule it gives the result it gives
  with the default count, all the fetches can be in flight at once, and the retrieval
  can complete. (With the count zero a call on a non-empty list never returns: lemma
  \<open>zero_workers_never_return\<close>.)
\<close>

theorem List_negative_workers_unbounded:
  assumes "maxWorkers e < 0"
  shows "List e ids flt sched = List (SetMaxWorkers (- 1) e) ids flt sched
    \<and> run e ids flt (replicate (length ids) Go) (init ids)
        = Some ((init ids)\<lparr>todo := [], tasks := map Fetching ids\<rparr>)
    \<and> in_flight ((init ids)\<lparr>todo := [], tasks := map Fetching ids\<rparr>) = length ids
    \<and> (\<exists>r. List e ids flt (seq_sched e flt ids) = Some r)"
proof -
  have "run (SetMaxWorkers (- 1) e) ids flt sched (init ids) = run e ids flt sched (init ids)"
    by (rule run_unlimited) (use assms in \<open>simp_all add: SetMaxWorkers_def\<close>)
  then have 1: "List e ids flt sched = List (SetMaxWorkers (- 1) e) ids flt sched"
    by (simp add: List_def)
  have 2: "run e ids flt (replicate (length ids) Go) (init ids)
        = Some ((init ids)\<lparr>todo := [], tasks := map Fetching ids\<rparr>)"
  proof (cases "ids = []")
    case True
    then show ?thesis by (simp add: init_def)
  next
    case False
    then have "pc (init ids) = Spawning" by (simp add: init_def)
    from run_all_Go [OF assms this, of ids flt] show ?thesis by (simp add: init_def)
  qed
  have 3: "in_flight ((init ids)\<lparr>todo := [], tasks := map Fetching ids\<rparr>) = length ids"
    by (simp add: in_flight_def)
  have 4: "\<exists>r. List e ids flt (seq_sched e flt ids) = Some r"
    by (rule List_can_return) (use assms in simp)
  from 1 2 3 4 show ?thesis by blast
qed

theorem List_negative_workers_unbounded_witness:
  "maxWorkers (SetMaxWorkers (- 5) (default_env all_stories)) < 0
   \<and> List (SetMaxWorkers (- 5) (default_env all_stories)) [1, 2, 3] None
       [Go, Go, Go, GetReturns 3, GetReturns 1, GetReturns 2,
        Send (sample 2 ''story''), Send (sample 3 ''story''), Send (sample 1 ''story''),
        Receive, Receive, Receive, Wait, Close, SeeClosed, Finish]
     = Some (Some [sample 1 ''story'', sample 2 ''story'', sample 3 ''story''], None)
   \<and> List (SetMaxWorkers (- 1) (SetMaxWorkers (- 5) (default_env all_stories))) [1, 2, 3] None
       [Go, Go, Go, GetReturns 3, GetReturns 1, GetReturns 2,
        Send (sample 2 ''story''), Send (sample 3 ''story''), Send (sample 1 ''story''),
        Receive, Receive, Receive, Wait, Close, SeeClosed, Finish]
     = Some (Some [sample 1 ''story'', sample 2 ''story'', sample 3 ''story''], None)
   \<and> run (SetMaxWorkers (- 5) (default_env all_stories)) [1, 2, 3] None [Go, Go, Go]
        (init [1, 2, 3])
     = Some ((init [1, 2, 3])\<lparr>todo := [], tasks := [Fetching 1, Fetching 2, Fetching 3]\<rparr>)"
  using List_negative_workers_unbounded
    [of "SetMaxWorkers (- 5) (default_env all_stories)" "[1, 2, 3]" None
      "[Go, Go, Go, GetReturns 3, GetReturns 1, GetReturns 2,
        Send (sample 2 ''story''), Send (sample 3 ''story''), Send (sample 1 ''story''),
        Receive, Receive, Receive, Wait, Close, SeeClosed, Finish]"]
  by (simp add: eval_defs SetMaxWorkers_def all_stories_def)

text \<open>
  Claim C3, as the specification states it, fails: the not-found error is an error of a
  task like any other. When the fetch of 1 reports not-found and then the fetch of 2
  fails in transport, \<open>List\<close> returns the not-found error, not the transport error.
\<close>

theorem List_returns_not_found_first:
  "List (default_env missing_1_broken_2) [1, 2] None
     [Go, Go, GetReturns 1, GetReturns 2, Wait]
   = Some (None, Some ErrNotFound)
   \<and> failures (default_env missing_1_broken_2) [Go, Go, GetReturns 1, GetReturns 2, Wait]
       = [ErrNotFound, TransportError]"
  by (simp add: eval_defs missing_1_broken_2_def)

text \<open>
  Claim C3, amended. Whenever \<open>List\<close> returns, the error it returns is the first error
  that any task returned (of any kind: transport, decode, cancellation, or not-found),
  and the result is \<open>nil\<close> exactly when there is an error: no list is returned alongside
  or instead of an error. If the fetch of some identifier fails, there is an error.
\<close>

theorem List_returns_first_error:
  assumes "List e ids flt sched = Some (r, err)"
  shows "err = first_failure e sched
    \<and> (r = None \<longleftrightarrow> err \<noteq> None)
    \<and> ((\<exists>k\<in>set ids. \<exists>x. Get e k = Inl x) \<longrightarrow> err \<noteq> None \<and> r = None)"
proof -
  have "(\<exists>k\<in>set ids. \<exists>x. Get e k = Inl x) \<longrightarrow> err \<noteq> None \<and> r = None"
    using failing_id_result [OF assms] by blast
  then show ?thesis using result_first_failure [OF assms] by blast
qed

theorem List_returns_first_error_witness:
  "List (default_env broken_2) [1, 2, 3] None
     [Go, Go, Go, GetReturns 1, Send (sample 1 ''story''), Receive, GetReturns 2,
      GetCanceled 3, Wait]
     = Some (None, Some TransportError)
   \<and> first_failure (default_env broken_2)
       [Go, Go, Go, GetReturns 1, Send (sample 1 ''story''), Receive, GetReturns 2,
        GetCanceled 3, Wait] = Some TransportError
   \<and> Get (default_env broken_2) 2 = Inl TransportError"
  using List_returns_first_error
    [of "default_env broken_2" "[1, 2, 3]" None
      "[Go, Go, Go, GetReturns 1, Send (sample 1 ''story''), Receive, GetReturns 2,
        GetCanceled 3, Wait]" None "Some TransportError"]
  by (simp add: eval_defs broken_2_def first_failure_def)

text \<open>
  Claim C2, as the specification states it, fails: \<open>Get\<close> returns \<open>ErrNotFound\<close> as its
  error, the task function returns every error of \<open>Get\<close>, and so the call fails. For the
  identifiers 1, 2, 3 of which 2 is not found, \<open>List\<close> returns \<open>nil\<close> and \<open>ErrNotFound\<close>.
\<close>

theorem List_not_found_is_error:
  "List (default_env missing_2) [1, 2, 3] None
     [Go, Go, Go, GetReturns 1, GetReturns 2, GetReturns 3,
      Send (sample 1 ''story''), Send (sample 3 ''story''), Receive, Receive, Wait]
   = Some (None, Some ErrNotFound)"
  by (simp add: eval_defs missing_2_def)

text \<open>
  Claim C2, amended. For every list of identifiers in which the fetch of at least one
  reports not-found and all other fetches succeed, \<open>List\<close> does not absorb the
  not-found outcome: whenever it returns, it returns \<open>nil\<close> and an error, which is
  \<open>ErrNotFound\<close>, or the cancellation error when the caller's context ends first. No
  record is returned.
\<close>

theorem List_not_found_aborts:
  assumes "List e ids flt sched = Some (r, err)"
    "\<exists>k\<in>set ids. Get e k = Inl ErrNotFound"
    "\<forall>k\<in>set ids. Get e k = Inl ErrNotFound \<or> (\<exists>item. Get e k = Inr item)"
  shows "r = None
    \<and> (err = Some ErrNotFound \<or> err = Some ContextCanceled)
    \<and> (CallerCancel \<notin> set sched \<longrightarrow> err = Some ErrNotFound)"
  by (rule not_found_result [OF assms])

theorem List_not_found_aborts_witness:
  "List (default_env missing_2) [1, 2, 3] None
     [Go, GetReturns 1, Send (sample 1 ''story''), Receive, Go, GetReturns 2, Go,
      GetReturns 3, Send (sample 3 ''story''), Receive, Wait]
     = Some (None, Some ErrNotFound)
   \<and> Get (default_env missing_2) 1 = Inr (sample 1 ''story'')
   \<and> Get (default_env missing_2) 2 = Inl ErrNotFound
   \<and> Get (default_env missing_2) 3 = Inr (sample 3 ''story'')"
  using List_not_found_aborts
    [of "default_env missing_2" "[1, 2, 3]" None
      "[Go, GetReturns 1, Send (sample 1 ''story''), Receive, Go, GetReturns 2, Go,
        GetReturns 3, Send (sample 3 ''story''), Receive, Wait]" None "Some ErrNotFound"]
  by (simp add: eval_defs missing_2_def)

text \<open>
  Claim C10, as stated, fails: a record whose decoded \<open>ID\<close> differs from the identifier
  it was requested under is not always omitted. When the answer to 1 carries the
  identifier 2 and the answer to 2 carries the identifier 1, both records are in the
  output, each at the place of the other.
\<close>

theorem List_keeps_record_under_other_id:
  "List (default_env swapped_ids) [1, 2] None
     [Go, GetReturns 1, Send (sample 2 ''story''), Receive,
      Go, GetReturns 2, Send (sample 1 ''story''), Receive, Wait, Close, SeeClosed, Finish]
   = Some (Some [sample 1 ''story'', sample 2 ''story''], None)
   \<and> Get (default_env swapped_ids) 1 = Inr (sample 2 ''story'')
   \<and> ID (sample 2 ''story'') \<noteq> 1"
  by (simp add: eval_defs swapped_ids_def)

text \<open>
  Claim C10, amended. Whenever \<open>List\<close> returns a list, there is no error, and a record
  enters the list only under its own decoded \<open>ID\<close>, matched against the requested
  identifiers: every record of the list was fetched for one of the requested identifiers
  and was sent on by the filter conditional, and the identifiers of the list are the
  requested identifiers, in their order, that are the decoded \<open>ID\<close> of a record of the
  list. So a record whose decoded \<open>ID\<close> is not among the requested identifiers is
  omitted, without an error. In the runs where the collector ends on the closed channel
  (it never takes \<open>ctx.Done()\<close>), the list has a record at exactly those requested
  identifiers that are the decoded \<open>ID\<close> of some fetched and accepted record.
\<close>

theorem List_output_keyed_by_decoded_ID:
  assumes "List e ids flt sched = Some (Some out, err)"
  shows "err = None
    \<and> (\<forall>item\<in>set out.
          ID item \<in> set ids \<and> (\<exists>k\<in>set ids. Get e k = Inr item) \<and> forwards flt item)
    \<and> map ID out = filter (\<lambda>k. k \<in> ID ` set out) ids
    \<and> (\<forall>item. ID item \<notin> set ids \<longrightarrow> item \<notin> set out)
    \<and> (SeeDone \<notin> set sched \<longrightarrow>
          map ID out =
            filter (\<lambda>k. \<exists>k'\<in>set ids. \<exists>item.
                      Get e k' = Inr item \<and> forwards flt item \<and> ID item = k) ids)"
proof -
  have 1: "err = None
    \<and> (\<forall>item\<in>set out.
          ID item \<in> set ids \<and> (\<exists>k\<in>set ids. Get e k = Inr item) \<and> forwards flt item)
    \<and> map ID out = filter (\<lambda>k. k \<in> ID ` set out) ids"
    by (rule output_items [OF assms])
  then have 2: "\<forall>item. ID item \<notin> set ids \<longrightarrow> item \<notin> set out"
    by blast
  have 3: "SeeDone \<notin> set sched \<longrightarrow>
          map ID out =
            filter (\<lambda>k. \<exists>k'\<in>set ids. \<exists>item.
                      Get e k' = Inr item \<and> forwards flt item \<and> ID item = k) ids"
    using output_ids_drained [OF assms] by blast
  from 1 2 3 show ?thesis by blast
qed

text \<open>
  A record decoded without an identifier (its \<open>ID\<close> is zero) is left out when zero was
  not requested.
\<close>

theorem List_output_keyed_by_decoded_ID_witness:
  "List (default_env without_id) [5] None
     [Go, GetReturns 5, Send (sample 0 ''story''), Receive, Wait, Close, SeeClosed, Finish]
     = Some (Some [], None)
   \<and> Get (default_env without_id) 5 = Inr (sample 0 ''story'')"
  using List_output_keyed_by_decoded_ID
    [of "default_env without_id" "[5]" None
      "[Go, GetReturns 5, Send (sample 0 ''story''), Receive, Wait, Close, SeeClosed, Finish]"
      "[]" None]
  by (simp add: eval_defs without_id_def)

text \<open>
  Two accepted records with one decoded \<open>ID\<close> share one entry of \<open>itemsMap\<close>: the one
  stored last stays. Here the answers to 1 and to 2 both carry the identifier 2.
\<close>

lemma List_keeps_last_record_of_an_ID:
  "List (default_env both_id_2) [1, 2] None
     [Go, GetReturns 1, Send (sample 2 ''story''), Receive,
      Go, GetReturns 2, Send (sample 2 ''comment''), Receive, Wait, Close, SeeClosed, Finish]
   = Some (Some [sample 2 ''comment''], None)"
  by (simp add: eval_defs both_id_2_def)

text \<open>
  Claim C1 fails on the code. One identifier, no predicate, the fetch succeeds: the task
  puts the record into the buffer of \<open>processed\<close> and returns; \<open>g.Wait\<close> returns, which
  cancels the context of the group; the collector finds both the record and
  \<open>ctx.Done()\<close> ready and takes \<open>ctx.Done()\<close>. \<open>List\<close> returns an empty list and no
  error, where the claim (and \<open>spec_retrieve\<close>) has the record.
\<close>

theorem List_drops_fetched_record:
  "List (default_env all_stories) [1] None
     [Go, GetReturns 1, Send (sample 1 ''story''), Wait, SeeDone, Close, Finish]
   = Some (Some [], None)
   \<and> spec_retrieve (default_env all_stories) [1] None = [sample 1 ''story'']"
  by (simp add: eval_defs all_stories_def spec_retrieve_def)

text \<open>
  Claim C4 fails on the code, by the same race. The identifiers 5, 6, 7 are a story, a
  comment and a story, and the predicate accepts stories. Both stories are fetched and
  accepted; the collector has stored the first when \<open>g.Wait\<close> returns, and then takes
  \<open>ctx.Done()\<close> with the second still in the buffer. The output holds one story, where
  the claim (and \<open>spec_retrieve\<close>) has two.
\<close>

theorem List_drops_accepted_record:
  "List (default_env mixed_types) [5, 6, 7] only_stories
     [Go, Go, Go, GetReturns 5, GetReturns 6, GetReturns 7,
      Send (sample 5 ''story''), Send (sample 7 ''story''), Receive,
      Wait, SeeDone, Close, Finish]
   = Some (Some [sample 5 ''story''], None)
   \<and> forwards only_stories (sample 7 ''story'')
   \<and> spec_retrieve (default_env mixed_types) [5, 6, 7] only_stories
       = [sample 5 ''story'', sample 7 ''story'']"
  by (simp add: eval_defs mixed_types_def spec_retrieve_def only_stories_def StoryType_def)

end
